theory Spec2Isabelle
  imports Main "HOL-Library.Log_Nat" "HOL-Library.Sublist" "HOL-Library.Multiset"
begin

section \<open>Python values used by the scoring heuristics\<close>

text \<open>
  A Python \<^verbatim>\<open>str\<close> is a sequence of Unicode code points; \<^verbatim>\<open>len\<close> counts code
  points. String literals of the source are ASCII and are written with \<open>lit\<close>.
\<close>

type_synonym str = "nat list"

definition lit :: "string \<Rightarrow> str" where
  "lit s = map of_char s"

datatype py_error = NameError string | ZeroDivisionError

text \<open>
  The character tables of the Unicode database that \<^verbatim>\<open>str.split()\<close>, \<^verbatim>\<open>str.lower()\<close>
  and the regular expression classes \<^verbatim>\<open>\s\<close>, \<^verbatim>\<open>\w\<close>, \<^verbatim>\<open>\d\<close> consult are not part
  of the repository. They are a parameter of every function that reads them:
  \<open>isspace\<close> is \<^verbatim>\<open>str.isspace\<close> on one code point, \<open>isalnum\<close> is \<^verbatim>\<open>str.isalnum\<close>,
  \<open>isdecimal\<close> is \<^verbatim>\<open>str.isdecimal\<close>, and \<open>lower\<close> is \<^verbatim>\<open>str.lower\<close> on a whole
  string (the full case mapping may change the length and looks at the context).
\<close>

record ucd =
  isspace :: "nat \<Rightarrow> bool"
  isalnum :: "nat \<Rightarrow> bool"
  isdecimal :: "nat \<Rightarrow> bool"
  lower :: "str \<Rightarrow> str"

text \<open>The tables on the ASCII range (code points below 128), for concrete runs.\<close>

definition ascii_isspace :: "nat \<Rightarrow> bool" where
  "ascii_isspace c = ((9 \<le> c \<and> c \<le> 13) \<or> (28 \<le> c \<and> c \<le> 32))"

definition ascii_isdecimal :: "nat \<Rightarrow> bool" where
  "ascii_isdecimal c = (48 \<le> c \<and> c \<le> 57)"

definition ascii_isalnum :: "nat \<Rightarrow> bool" where
  "ascii_isalnum c = ((48 \<le> c \<and> c \<le> 57) \<or> (65 \<le> c \<and> c \<le> 90) \<or> (97 \<le> c \<and> c \<le> 122))"

definition ascii_lower_char :: "nat \<Rightarrow> nat" where
  "ascii_lower_char c = (if 65 \<le> c \<and> c \<le> 90 then c + 32 else c)"

definition ascii :: ucd where
  "ascii = \<lparr> isspace = ascii_isspace, isalnum = ascii_isalnum,
             isdecimal = ascii_isdecimal, lower = map ascii_lower_char \<rparr>"

subsection \<open>String operations\<close>

text \<open>
  \<^verbatim>\<open>s.split()\<close>: the maximal runs of non-whitespace characters, in order; no empty
  strings. \<open>cur\<close> holds the current run, reversed.
\<close>

fun split_ws_acc :: "(nat \<Rightarrow> bool) \<Rightarrow> str \<Rightarrow> str \<Rightarrow> str list" where
  "split_ws_acc sp cur [] = (if cur = [] then [] else [rev cur])"
| "split_ws_acc sp cur (c # cs) =
     (if sp c then (if cur = [] then split_ws_acc sp [] cs else rev cur # split_ws_acc sp [] cs)
      else split_ws_acc sp (c # cur) cs)"

definition str_split :: "ucd \<Rightarrow> str \<Rightarrow> str list" where
  "str_split U s = split_ws_acc (isspace U) [] s"

text \<open>
  \<^verbatim>\<open>s.split(sep)\<close> for a one-character separator: every occurrence of the separator
  ends a fragment, empty fragments are kept.
\<close>

fun split_sep_acc :: "nat \<Rightarrow> str \<Rightarrow> str \<Rightarrow> str list" where
  "split_sep_acc sep cur [] = [rev cur]"
| "split_sep_acc sep cur (c # cs) =
     (if c = sep then rev cur # split_sep_acc sep [] cs else split_sep_acc sep (c # cur) cs)"

definition str_split_on :: "nat \<Rightarrow> str \<Rightarrow> str list" where
  "str_split_on sep s = split_sep_acc sep [] s"

text \<open>\<^verbatim>\<open>w in s\<close> for two strings: \<open>w\<close> starts at some offset of \<open>s\<close>.\<close>

fun str_contains :: "str \<Rightarrow> str \<Rightarrow> bool" where
  "str_contains [] w = (w = [])"
| "str_contains (c # cs) w = (prefix w (c # cs) \<or> str_contains cs w)"

subsection \<open>Floating point\<close>

text \<open>
  A Python \<^verbatim>\<open>float\<close> is an IEEE 754 binary64 number. Finite floats are modelled by their
  exact rational value, and every arithmetic operation rounds the exact result to the
  nearest number with a 53-bit significand, ties to even. The exponent range is left
  unbounded: the values that occur here are quotients of list lengths scaled by small
  constants, far away from overflow and from the subnormal range.
\<close>

definition expo :: "rat \<Rightarrow> int" where
  "expo x = (let (p, q) = quotient_of \<bar>x\<bar>; e = bitlen p - bitlen q
             in if 2 powi e \<le> \<bar>x\<bar> then e else e - 1)"

definition round_half_even :: "rat \<Rightarrow> int" where
  "round_half_even m = (let f = \<lfloor>m\<rfloor>; d = m - of_int f
     in if d < 1/2 then f else if 1/2 < d then f + 1 else if even f then f else f + 1)"

definition rnd :: "rat \<Rightarrow> rat" where
  "rnd x = (if x = 0 then 0
            else let e = expo x - 52 in of_int (round_half_even (x / 2 powi e)) * 2 powi e)"

definition py_float :: "int \<Rightarrow> rat" where
  "py_float n = rnd (of_int n)"

definition fmul :: "rat \<Rightarrow> rat \<Rightarrow> rat" where
  "fmul x y = rnd (x * y)"

definition fsub :: "rat \<Rightarrow> rat \<Rightarrow> rat" where
  "fsub x y = rnd (x - y)"

text \<open>\<^verbatim>\<open>a / b\<close> on two ints: the correctly rounded quotient, or ZeroDivisionError.\<close>

definition int_truediv :: "int \<Rightarrow> int \<Rightarrow> py_error + rat" where
  "int_truediv a b = (if b = 0 then Inl ZeroDivisionError else Inr (rnd (of_int a / of_int b)))"

text \<open>\<^verbatim>\<open>int(x)\<close> truncates towards zero.\<close>

definition py_int :: "rat \<Rightarrow> int" where
  "py_int x = (if 0 \<le> x then \<lfloor>x\<rfloor> else \<lceil>x\<rceil>)"

definition len :: "'a list \<Rightarrow> int" where
  "len xs = int (length xs)"

text \<open>The float quotient of two numbers; \<open>int_truediv a b\<close> is \<open>fdiv\<close> of the two ints.\<close>

definition fdiv :: "rat \<Rightarrow> rat \<Rightarrow> rat" where
  "fdiv x y = rnd (x / y)"

subsection \<open>The regular expressions of the quick score\<close>

text \<open>
  \<^verbatim>\<open>\w\<close> is an alphanumeric code point or the underscore; \<^verbatim>\<open>\b\<close> holds between two
  positions when exactly one of the neighbouring characters is a word character,
  the outside of the string counting as a non-word character.
\<close>

definition word_char :: "ucd \<Rightarrow> nat \<Rightarrow> bool" where
  "word_char U c = (isalnum U c \<or> c = 95)"

definition opt_word :: "ucd \<Rightarrow> nat option \<Rightarrow> bool" where
  "opt_word U p = (case p of None \<Rightarrow> False | Some c \<Rightarrow> word_char U c)"

definition at_boundary :: "ucd \<Rightarrow> nat option \<Rightarrow> nat option \<Rightarrow> bool" where
  "at_boundary U p n = (opt_word U p \<noteq> opt_word U n)"

definition first_char :: "str \<Rightarrow> nat option" where
  "first_char s = (case s of [] \<Rightarrow> None | c # _ \<Rightarrow> Some c)"

text \<open>
  \<^verbatim>\<open>\b\d{4}\b\<close> tried at one position; \<open>prev\<close> is the character before it.
\<close>

definition match_year_here :: "ucd \<Rightarrow> nat option \<Rightarrow> str \<Rightarrow> bool" where
  "match_year_here U prev s =
     (case s of
        a # b # c # d # rest \<Rightarrow>
          at_boundary U prev (Some a) \<and> isdecimal U a \<and> isdecimal U b \<and> isdecimal U c
          \<and> isdecimal U d \<and> at_boundary U (Some d) (first_char rest)
      | _ \<Rightarrow> False)"

fun search_year :: "ucd \<Rightarrow> nat option \<Rightarrow> str \<Rightarrow> bool" where
  "search_year U prev [] = match_year_here U prev []"
| "search_year U prev (c # cs) = (match_year_here U prev (c # cs) \<or> search_year U (Some c) cs)"

definition re_search_year :: "ucd \<Rightarrow> str \<Rightarrow> bool" where
  "re_search_year U s = search_year U None s"

definition re_search_at :: "str \<Rightarrow> bool" where
  "re_search_at s = (64 \<in> set s)"

definition re_findall_special :: "ucd \<Rightarrow> str \<Rightarrow> str" where
  "re_findall_special U s = filter (\<lambda>c. \<not> word_char U c \<and> \<not> isspace U c) s"


section \<open>app.py: class EnhancedAnalyzer\<close>

text \<open>
  The methods take \<open>self\<close> first, as in the source; its type is left open, since
  none of the methods below reads an attribute of it.
\<close>

subsection \<open>Industry insights\<close>

text \<open>
  The analysis dictionary comes from the language-model analyzer. The only entry
  read here is \<^verbatim>\<open>matched_keywords\<close>, a list of strings; the dictionary is modelled on
  its list-valued entries.
\<close>

type_synonym analysis = "string \<rightharpoonup> str list"

record industry_insights =
  industry :: str
  matched_industry_keywords :: "str list"
  missing_industry_keywords :: "str list"
  industry_score :: rat
  industry_recommendations :: "str list"

definition industry_keywords :: "(str \<times> str list) list" where
  "industry_keywords =
    [(lit ''Technology'', map lit [''agile'', ''scrum'', ''api'', ''cloud'', ''devops'',
        ''microservices'', ''scalability'']),
     (lit ''Healthcare'', map lit [''hipaa'', ''patient care'', ''clinical'', ''medical'',
        ''compliance'', ''safety'']),
     (lit ''Finance'', map lit [''regulatory'', ''compliance'', ''risk management'', ''audit'',
        ''financial modeling'']),
     (lit ''Marketing'', map lit [''seo'', ''sem'', ''analytics'', ''conversion'', ''campaigns'',
        ''brand'', ''roi'']),
     (lit ''Data Science'', map lit [''machine learning'', ''statistics'', ''python'', ''sql'',
        ''visualization'', ''modeling''])]"

definition recommendations :: "(str \<times> str list) list" where
  "recommendations =
    [(lit ''Technology'', map lit
        [''Emphasize technical achievements with metrics'',
         ''Include open-source contributions or personal projects'',
         ''Highlight experience with modern tech stacks'']),
     (lit ''Healthcare'', map lit
        [''Emphasize patient outcomes and safety improvements'',
         ''Include relevant certifications and compliance knowledge'',
         ''Highlight interdisciplinary collaboration'']),
     (lit ''Finance'', map lit
        [''Quantify financial impacts and cost savings'',
         ''Emphasize risk management and compliance experience'',
         ''Include relevant financial modeling and analysis skills''])]"

text \<open>\<^verbatim>\<open>d.get(key, default)\<close> on a dictionary literal.\<close>

definition dict_get :: "('k \<times> 'v) list \<Rightarrow> 'k \<Rightarrow> 'v \<Rightarrow> 'v" where
  "dict_get d k dflt = (case map_of d k of None \<Rightarrow> dflt | Some v \<Rightarrow> v)"

definition get_industry_recommendations :: "'s \<Rightarrow> str \<Rightarrow> str list \<Rightarrow> str list" where
  "get_industry_recommendations self ind missing_keywords =
     dict_get recommendations ind [lit ''Tailor resume to industry-specific requirements'']"

definition get_industry_insights :: "'s \<Rightarrow> str \<Rightarrow> analysis \<Rightarrow> py_error + industry_insights" where
  "get_industry_insights self ind an =
     (let relevant_keywords = dict_get industry_keywords ind [];
          matched_keywords = (case an ''matched_keywords'' of None \<Rightarrow> [] | Some ks \<Rightarrow> ks);
          matched = filter (\<lambda>kw. kw \<in> set matched_keywords) relevant_keywords;
          missing = filter (\<lambda>kw. kw \<notin> set matched_keywords) relevant_keywords
      in case (if relevant_keywords \<noteq> []
               then (case int_truediv (len matched) (len relevant_keywords) of
                       Inl e \<Rightarrow> Inl e
                     | Inr q \<Rightarrow> Inr (fmul q (py_float 100)))
               else Inr 0) of
           Inl e \<Rightarrow> Inl e
         | Inr score \<Rightarrow>
             Inr \<lparr> industry = ind,
                   matched_industry_keywords = matched,
                   missing_industry_keywords = missing,
                   industry_score = score,
                   industry_recommendations = get_industry_recommendations self ind missing \<rparr>)"

subsection \<open>Sentiment\<close>

record sentiment =
  tone_score :: int
  positive_indicators :: int
  weak_indicators :: int
  overall_tone :: str

definition positive_words :: "str list" where
  "positive_words = map lit [''achieved'', ''improved'', ''increased'', ''successful'', ''led'',
     ''managed'', ''developed'']"

definition weak_words :: "str list" where
  "weak_words = map lit [''responsible for'', ''duties included'', ''worked on'', ''helped with'']"

text \<open>\<^verbatim>\<open>sum(1 for word in ws if word in s)\<close>\<close>

definition count_present :: "str list \<Rightarrow> str \<Rightarrow> int" where
  "count_present ws s = sum_list (map (\<lambda>word. 1) (filter (\<lambda>word. str_contains s word) ws))"

definition analyze_sentiment :: "ucd \<Rightarrow> 's \<Rightarrow> str \<Rightarrow> sentiment" where
  "analyze_sentiment U self txt =
     (let positive_count = count_present positive_words (lower U txt);
          weak_count = count_present weak_words (lower U txt)
      in \<lparr> tone_score = min 100 ((positive_count - weak_count) * 10 + 70),
           positive_indicators = positive_count,
           weak_indicators = weak_count,
           overall_tone = (if positive_count > weak_count then lit ''Strong''
                           else lit ''Needs Improvement'') \<rparr>)"

subsection \<open>Readability and uniqueness\<close>

definition calculate_readability :: "ucd \<Rightarrow> 's \<Rightarrow> str \<Rightarrow> py_error + int" where
  "calculate_readability U self txt =
     (let words = str_split U txt;
          sentences = str_split_on 46 txt
      in case int_truediv (len words) (max (len sentences) 1) of
           Inl e \<Rightarrow> Inl e
         | Inr avg_words_per_sentence \<Rightarrow>
             (let readability =
                    max 0 (min 100 (fsub (py_float 100)
                                         (fmul (fsub avg_words_per_sentence (py_float 15))
                                               (py_float 2))))
              in Inr (py_int readability)))"

text \<open>The expression under the clamp, as a function of the average.\<close>

definition readability_of_avg :: "rat \<Rightarrow> rat" where
  "readability_of_avg x = fsub 100 (fmul (fsub x 15) 2)"

definition calculate_uniqueness :: "ucd \<Rightarrow> 's \<Rightarrow> str \<Rightarrow> py_error + int" where
  "calculate_uniqueness U self txt =
     (let unique_words = set (str_split U (lower U txt));
          total_words = len (str_split U txt)
      in case (if total_words > 0
               then (case int_truediv (int (card unique_words)) total_words of
                       Inl e \<Rightarrow> Inl e
                     | Inr q \<Rightarrow> Inr (fmul q (py_float 100)))
               else Inr 0) of
           Inl e \<Rightarrow> Inl e
         | Inr uniqueness \<Rightarrow> Inr (min 100 (py_int (fmul uniqueness (rnd (3/2))))))"

section \<open>Core Engine, enhanced app integration: class SmartATSProElite\<close>

text \<open>
  The names bound in the module's global namespace: the imports, the class and
  \<^verbatim>\<open>main\<close>. A global name that is neither bound here nor a builtin raises NameError
  when it is read.
\<close>

definition module_globals :: "string list" where
  "module_globals =
    [''load_dotenv'', ''st'', ''os'', ''datetime'', ''json'', ''time'', ''go'', ''px'',
     ''Dict'', ''List'', ''Any'', ''pd'', ''asyncio'', ''ThreadPoolExecutor'',
     ''load_advanced_css'', ''create_enhanced_header'', ''create_enhanced_sidebar'',
     ''create_enhanced_metrics_dashboard'', ''create_feature_cards'',
     ''show_success_animation'', ''show_error_animation'', ''create_loading_spinner'',
     ''ThemeManager'', ''PDFProcessor'', ''EnhancedGeminiAnalyzer'',
     ''AdvancedVisualizationEngine'', ''ReportGenerator'', ''IntelligentResumeBuilder'',
     ''ResumeOptimizationEngine'', ''PerformanceTracker'', ''GoalSettingEngine'',
     ''MarketIntelligenceEngine'', ''InterviewPreparationEngine'', ''InterviewAnalytics'',
     ''SessionManager'', ''KeywordExtractor'', ''SmartATSProElite'', ''main'']"

definition load_global :: "string list \<Rightarrow> string \<Rightarrow> py_error + unit" where
  "load_global G name = (if name \<in> set G then Inr () else Inl (NameError name))"

text \<open>
  \<open>G\<close> is the global namespace the method runs in; the module as written runs it in
  \<open>module_globals\<close>, and \<^verbatim>\<open>re\<close> is no builtin. Where \<^verbatim>\<open>re\<close> is found, the three
  calls are those of the standard regular expression module.
\<close>

definition calculate_quick_ats_score :: "ucd \<Rightarrow> string list \<Rightarrow> 's \<Rightarrow> str \<Rightarrow> py_error + int" where
  "calculate_quick_ats_score U G self resume_text =
     (let score = 100;
          score = (if len resume_text < 500 then score - 20 else score)
      in case load_global G ''re'' of
           Inl e \<Rightarrow> Inl e
         | Inr _ \<Rightarrow>
             (let score = (if \<not> re_search_year U resume_text then score - 15 else score);
                  score = (if \<not> re_search_at resume_text then score - 10 else score);
                  score = (if of_int (len (re_findall_special U resume_text))
                                > fmul (py_float (len resume_text)) (rnd (1/10))
                           then score - 10 else score)
              in Inr (max 0 score)))"

definition calculate_keyword_density :: "ucd \<Rightarrow> 's \<Rightarrow> str \<Rightarrow> str \<Rightarrow> py_error + int" where
  "calculate_keyword_density U self resume_text job_description =
     (let resume_words = set (str_split U (lower U resume_text));
          jd_words = set (str_split U (lower U job_description));
          common_words = resume_words \<inter> jd_words
      in if jd_words = {} then Inr 0
         else case int_truediv (int (card common_words)) (int (card jd_words)) of
                Inl e \<Rightarrow> Inl e
              | Inr q \<Rightarrow> Inr (py_int (fmul q (py_float 100))))"

section \<open>Assumptions on the character tables\<close>

text \<open>
  Lower-casing neither creates nor removes words: a string has a word exactly when
  its lower-cased form has one. The Unicode case mapping sends whitespace to itself
  and every other character to a non-empty run of non-whitespace characters.
\<close>

definition case_mapping_keeps_words :: "ucd \<Rightarrow> bool" where
  "case_mapping_keeps_words U =
     (\<forall>s. (str_split U (lower U s) = []) = (str_split U s = []))"

text \<open>
  Every decimal digit is an alphanumeric character, as in the Unicode database.
\<close>

definition digits_are_word_chars :: "ucd \<Rightarrow> bool" where
  "digits_are_word_chars U = (\<forall>c. isalnum U c \<or> \<not> isdecimal U c)"

text \<open>
  A standalone four-digit number: four decimal digits in a row with no word character
  directly before or after them.
\<close>

definition has_standalone_year :: "ucd \<Rightarrow> str \<Rightarrow> bool" where
  "has_standalone_year U s =
     (\<exists>pre a b c d post. s = pre @ [a, b, c, d] @ post
        \<and> isdecimal U a \<and> isdecimal U b \<and> isdecimal U c \<and> isdecimal U d
        \<and> (pre = [] \<or> \<not> word_char U (last pre))
        \<and> (post = [] \<or> \<not> word_char U (hd post)))"

text \<open>
  A job description of fifty distinct words and a resume that has twenty-nine of them.
\<close>

abbreviation (input) fifty_word_jd :: str where
  "fifty_word_jd \<equiv> lit
     ''a b c d e f g h i j k l m n o p q r s t u v w x y z aa bb cc dd ee ff gg hh ii jj kk ll mm nn oo pp qq rr ss tt uu vv ww xx''"

abbreviation (input) twenty_nine_word_resume :: str where
  "twenty_nine_word_resume \<equiv> lit
     ''a b c d e f g h i j k l m n o p q r s t u v w x y z aa bb cc''"

abbreviation (input) fifty_words :: "str list" where
  "fifty_words \<equiv> map lit
    [''a'', ''b'', ''c'', ''d'', ''e'', ''f'', ''g'', ''h'', ''i'', ''j'', ''k'',
     ''l'', ''m'', ''n'', ''o'', ''p'', ''q'', ''r'', ''s'', ''t'', ''u'', ''v'',
     ''w'', ''x'', ''y'', ''z'', ''aa'', ''bb'', ''cc'', ''dd'', ''ee'', ''ff'',
     ''gg'', ''hh'', ''ii'', ''jj'', ''kk'', ''ll'', ''mm'', ''nn'', ''oo'', ''pp'',
     ''qq'', ''rr'', ''ss'', ''tt'', ''uu'', ''vv'', ''ww'', ''xx'']"

abbreviation (input) twenty_nine_words :: "str list" where
  "twenty_nine_words \<equiv> map lit
    [''a'', ''b'', ''c'', ''d'', ''e'', ''f'', ''g'', ''h'', ''i'', ''j'', ''k'',
     ''l'', ''m'', ''n'', ''o'', ''p'', ''q'', ''r'', ''s'', ''t'', ''u'', ''v'',
     ''w'', ''x'', ''y'', ''z'', ''aa'', ''bb'', ''cc'']"

section \<open>Rounding to binary64\<close>

text \<open>
  \<open>expo x\<close> is the binary exponent of \<open>x\<close>; rounding is monotone and leaves every
  number with a significand below \<open>2 ^ 53\<close> unchanged.
\<close>

lemma powi_pos: "(0::rat) < 2 powi e"
  by (simp add: power_int_def)

lemma powi_mono: "a \<le> b \<Longrightarrow> (2::rat) powi a \<le> 2 powi b"
  by (rule power_int_increasing) simp_all

lemma powi_strict_mono: "a < b \<Longrightarrow> (2::rat) powi a < 2 powi b"
  by (rule power_int_strict_increasing) simp_all

lemma bitlen_frac_bounds:
  assumes p: "0 < p" and q: "0 < q"
  shows "(2::rat) powi (bitlen p - bitlen q - 1) < of_int p / of_int q"
    and "of_int p / of_int q < (2::rat) powi (bitlen p - bitlen q + 1)"
proof -
  have a1: "1 \<le> bitlen p" and b1: "1 \<le> bitlen q"
    using p q by (auto simp: bitlen_alt_def)
  have pl: "(2::rat) powi (bitlen p - 1) \<le> of_int p"
  proof -
    have "(2::int) ^ nat (bitlen p - 1) \<le> p" using bitlen_bounds[OF p] by simp
    then have "(of_int ((2::int) ^ nat (bitlen p - 1)) :: rat) \<le> of_int p"
      by (simp only: of_int_le_iff)
    then show ?thesis using a1 by (simp add: power_int_def)
  qed
  have pu: "of_int p < (2::rat) powi (bitlen p)"
  proof -
    have "p < (2::int) ^ nat (bitlen p)" using bitlen_bounds[OF p] by simp
    then have "(of_int p :: rat) < of_int ((2::int) ^ nat (bitlen p))"
      by (simp only: of_int_less_iff)
    then show ?thesis using a1 by (simp add: power_int_def)
  qed
  have ql: "(2::rat) powi (bitlen q - 1) \<le> of_int q"
  proof -
    have "(2::int) ^ nat (bitlen q - 1) \<le> q" using bitlen_bounds[OF q] by simp
    then have "(of_int ((2::int) ^ nat (bitlen q - 1)) :: rat) \<le> of_int q"
      by (simp only: of_int_le_iff)
    then show ?thesis using b1 by (simp add: power_int_def)
  qed
  have qu: "of_int q < (2::rat) powi (bitlen q)"
  proof -
    have "q < (2::int) ^ nat (bitlen q)" using bitlen_bounds[OF q] by simp
    then have "(of_int q :: rat) < of_int ((2::int) ^ nat (bitlen q))"
      by (simp only: of_int_less_iff)
    then show ?thesis using b1 by (simp add: power_int_def)
  qed
  have qpos: "(0::rat) < of_int q" using q by simp
  have ppos: "(0::rat) < of_int p" using p by simp
  have "(2::rat) powi (bitlen p - bitlen q - 1) * of_int q
        < 2 powi (bitlen p - bitlen q - 1) * 2 powi (bitlen q)"
    using qu powi_pos by (simp add: mult_strict_left_mono)
  also have "\<dots> = 2 powi (bitlen p - 1)"
    by (simp flip: power_int_add)
  also have "\<dots> \<le> of_int p" by (rule pl)
  finally show "(2::rat) powi (bitlen p - bitlen q - 1) < of_int p / of_int q"
    using qpos by (simp add: pos_less_divide_eq)
  have "of_int p < (2::rat) powi (bitlen p)" by (rule pu)
  also have "\<dots> = 2 powi (bitlen p - bitlen q + 1) * 2 powi (bitlen q - 1)"
    by (simp flip: power_int_add)
  also have "\<dots> \<le> 2 powi (bitlen p - bitlen q + 1) * of_int q"
    using ql powi_pos by (simp add: mult_left_mono)
  finally show "of_int p / of_int q < (2::rat) powi (bitlen p - bitlen q + 1)"
    using qpos by (simp add: pos_divide_less_eq)
qed

lemma expo_bounds:
  assumes "x \<noteq> 0"
  shows "2 powi expo x \<le> \<bar>x\<bar>" and "\<bar>x\<bar> < 2 powi (expo x + 1)"
proof -
  obtain p q where pq: "quotient_of \<bar>x\<bar> = (p, q)" by (cases "quotient_of \<bar>x\<bar>")
  then have q: "0 < q" and x: "\<bar>x\<bar> = of_int p / of_int q"
    by (auto dest: quotient_of_denom_pos quotient_of_div)
  have "0 < \<bar>x\<bar>" using assms by simp
  with x q have p: "0 < p" by (simp add: zero_less_divide_iff)
  let ?e = "bitlen p - bitlen q"
  have ex: "expo x = (if 2 powi ?e \<le> \<bar>x\<bar> then ?e else ?e - 1)"
    by (simp add: expo_def pq)
  from bitlen_frac_bounds[OF p q] x
  have lo: "2 powi (?e - 1) < \<bar>x\<bar>" and hi: "\<bar>x\<bar> < 2 powi (?e + 1)" by simp_all
  show "2 powi expo x \<le> \<bar>x\<bar>" using lo by (simp add: ex)
  show "\<bar>x\<bar> < 2 powi (expo x + 1)" using hi by (simp add: ex)
qed

lemma expo_unique:
  assumes "2 powi e \<le> \<bar>x\<bar>" and "\<bar>x\<bar> < 2 powi (e + 1)"
  shows "expo x = e"
proof -
  have "0 < \<bar>x\<bar>" by (rule less_le_trans[OF powi_pos assms(1)])
  then have x: "x \<noteq> 0" by simp
  have "\<not> expo x < e"
  proof
    assume "expo x < e"
    then have "(2::rat) powi (expo x + 1) \<le> 2 powi e" by (intro powi_mono) simp
    with expo_bounds(2)[OF x] assms(1) show False by simp
  qed
  moreover have "\<not> e < expo x"
  proof
    assume "e < expo x"
    then have "(2::rat) powi (e + 1) \<le> 2 powi expo x" by (intro powi_mono) simp
    with expo_bounds(1)[OF x] assms(2) show False by simp
  qed
  ultimately show ?thesis by simp
qed

lemma expo_minus [simp]: "expo (- x) = expo x"
  by (simp add: expo_def)

lemma expo_mono:
  assumes "0 < x" and "x \<le> y"
  shows "expo x \<le> expo y"
proof (rule ccontr)
  assume "\<not> expo x \<le> expo y"
  then have "(2::rat) powi (expo y + 1) \<le> 2 powi expo x" by (intro powi_mono) simp
  moreover have "y < 2 powi (expo y + 1)" using expo_bounds(2)[of y] assms by simp
  moreover have "2 powi expo x \<le> x" using expo_bounds(1)[of x] assms by simp
  ultimately show False using assms by simp
qed

lemma round_half_even_cases:
  "round_half_even m = \<lfloor>m\<rfloor> \<or> round_half_even m = \<lfloor>m\<rfloor> + 1"
  by (simp add: round_half_even_def Let_def)

lemma round_half_even_of_int [simp]: "round_half_even (of_int k) = k"
  by (simp add: round_half_even_def)

lemma round_half_even_mono:
  assumes "x \<le> y"
  shows "round_half_even x \<le> round_half_even y"
proof (cases "\<lfloor>x\<rfloor> = \<lfloor>y\<rfloor>")
  case True
  then have "x - of_int \<lfloor>x\<rfloor> \<le> y - of_int \<lfloor>y\<rfloor>" using assms by simp
  then show ?thesis using True by (auto simp: round_half_even_def Let_def)
next
  case False
  have "\<lfloor>x\<rfloor> \<le> \<lfloor>y\<rfloor>" using assms by (rule floor_mono)
  with False have "\<lfloor>x\<rfloor> + 1 \<le> \<lfloor>y\<rfloor>" by simp
  moreover have "round_half_even x \<le> \<lfloor>x\<rfloor> + 1"
    using round_half_even_cases[of x] by auto
  moreover have "\<lfloor>y\<rfloor> \<le> round_half_even y"
    using round_half_even_cases[of y] by auto
  ultimately show ?thesis by simp
qed

lemma round_half_even_minus: "round_half_even (- m) = - round_half_even m"
proof (cases "m \<in> \<int>")
  case True
  then obtain k where "m = of_int k" by (auto elim: Ints_cases)
  then show ?thesis by (simp flip: of_int_minus)
next
  case False
  then have ne: "m \<noteq> of_int \<lfloor>m\<rfloor>" by (metis Ints_of_int)
  then have f: "\<lfloor>- m\<rfloor> = - \<lfloor>m\<rfloor> - 1"
    by (simp add: floor_minus ceiling_altdef)
  have "of_int \<lfloor>m\<rfloor> < m" using ne of_int_floor_le[of m] by linarith
  then show ?thesis
    unfolding round_half_even_def Let_def f
    by (auto simp: algebra_simps)
qed


lemma rnd_zero [simp]: "rnd 0 = 0"
  by (simp add: rnd_def)

lemma rnd_minus: "rnd (- x) = - rnd x"
  by (simp add: rnd_def Let_def round_half_even_minus)

lemma powi_split52: "(2::rat) powi e = 2 ^ 52 * 2 powi (e - 52)"
proof -
  have "(2::rat) powi (52 + (e - 52)) = 2 powi 52 * 2 powi (e - 52)"
    by (rule power_int_add) simp
  then show ?thesis by simp
qed

lemma powi_split53: "(2::rat) powi (e + 1) = 2 ^ 53 * 2 powi (e - 52)"
proof -
  have "(2::rat) powi (53 + (e - 52)) = 2 powi 53 * 2 powi (e - 52)"
    by (rule power_int_add) simp
  moreover have "53 + (e - 52) = e + 1" by simp
  ultimately show ?thesis by simp
qed

lemma mantissa_bounds:
  assumes "0 < x"
  shows "2 ^ 52 \<le> x / 2 powi (expo x - 52)" and "x / 2 powi (expo x - 52) < 2 ^ 53"
proof -
  have x: "x \<noteq> 0" "\<bar>x\<bar> = x" using assms by simp_all
  have "2 ^ 52 * 2 powi (expo x - 52) \<le> x"
    using expo_bounds(1)[OF x(1)] x(2) powi_split52[of "expo x"] by simp
  then show "2 ^ 52 \<le> x / 2 powi (expo x - 52)"
    by (simp add: pos_le_divide_eq powi_pos)
  have "x < 2 ^ 53 * 2 powi (expo x - 52)"
    using expo_bounds(2)[OF x(1)] x(2) powi_split53[of "expo x"] by simp
  then show "x / 2 powi (expo x - 52) < 2 ^ 53"
    by (simp add: pos_divide_less_eq powi_pos)
qed

lemma rnd_pos_bounds:
  assumes "0 < x"
  shows "2 powi expo x \<le> rnd x" and "rnd x \<le> 2 powi (expo x + 1)"
proof -
  let ?s = "(2::rat) powi (expo x - 52)"
  let ?r = "round_half_even (x / ?s)"
  have r: "rnd x = of_int ?r * ?s" using assms by (simp add: rnd_def Let_def)
  have "round_half_even (of_int (2 ^ 52)) \<le> ?r"
    using mantissa_bounds(1)[OF assms] by (intro round_half_even_mono) simp
  then have lo: "(2::rat) ^ 52 \<le> of_int ?r"
    unfolding round_half_even_of_int by (metis of_int_le_iff of_int_numeral of_int_power)
  have "?r \<le> round_half_even (of_int (2 ^ 53))"
    using mantissa_bounds(2)[OF assms] by (intro round_half_even_mono) simp
  then have hi: "of_int ?r \<le> (2::rat) ^ 53"
    unfolding round_half_even_of_int by (metis of_int_le_iff of_int_numeral of_int_power)
  have "2 ^ 52 * ?s \<le> of_int ?r * ?s"
    using lo powi_pos[of "expo x - 52"] by (intro mult_right_mono) simp_all
  then show "2 powi expo x \<le> rnd x"
    unfolding r using powi_split52[of "expo x"] by simp
  have "of_int ?r * ?s \<le> 2 ^ 53 * ?s"
    using hi powi_pos[of "expo x - 52"] by (intro mult_right_mono) simp_all
  then show "rnd x \<le> 2 powi (expo x + 1)"
    unfolding r using powi_split53[of "expo x"] by simp
qed

lemma rnd_pos: "0 < x \<Longrightarrow> 0 < rnd x"
  by (rule less_le_trans[OF powi_pos rnd_pos_bounds(1)])

lemma rnd_mono_pos:
  assumes "0 < x" and "x \<le> y"
  shows "rnd x \<le> rnd y"
proof (cases "expo x = expo y")
  case True
  let ?s = "(2::rat) powi (expo x - 52)"
  have y: "0 < y" using assms by simp
  have "x / ?s \<le> y / ?s" using assms(2) powi_pos[of "expo x - 52"]
    by (simp add: divide_right_mono)
  then have "round_half_even (x / ?s) \<le> round_half_even (y / ?s)"
    by (rule round_half_even_mono)
  then have "(of_int (round_half_even (x / ?s)) :: rat) * ?s \<le> of_int (round_half_even (y / ?s)) * ?s"
    using powi_pos[of "expo x - 52"] by (intro mult_right_mono) simp_all
  then show ?thesis using assms(1) y True by (simp add: rnd_def Let_def)
next
  case False
  have y: "0 < y" using assms by simp
  from False expo_mono[OF assms] have "expo x + 1 \<le> expo y" by simp
  then have "(2::rat) powi (expo x + 1) \<le> 2 powi expo y" by (rule powi_mono)
  with rnd_pos_bounds(2)[OF assms(1)] rnd_pos_bounds(1)[OF y] show ?thesis by simp
qed

lemma rnd_mono:
  assumes "x \<le> y"
  shows "rnd x \<le> rnd y"
proof -
  consider "0 < x" | "x = 0" | "x < 0" "0 \<le> y" | "x < 0" "y < 0" by linarith
  then show ?thesis
  proof cases
    case 1
    then show ?thesis using assms by (rule rnd_mono_pos)
  next
    case 2
    show ?thesis
    proof (cases "y = 0")
      case True with 2 show ?thesis by simp
    next
      case False
      with 2 assms have "0 < y" by simp
      from rnd_pos[OF this] 2 show ?thesis by simp
    qed
  next
    case 3
    have "0 < rnd (- x)" using 3 by (intro rnd_pos) simp
    then have a: "rnd x < 0" by (simp add: rnd_minus)
    have "0 \<le> rnd y"
    proof (cases "y = 0")
      case True then show ?thesis by simp
    next
      case False
      with 3 have "0 < y" by simp
      from rnd_pos[OF this] show ?thesis by simp
    qed
    with a show ?thesis by simp
  next
    case 4
    have "rnd (- y) \<le> rnd (- x)" using 4 assms by (intro rnd_mono_pos) simp_all
    then show ?thesis by (simp add: rnd_minus)
  qed
qed

lemma rnd_dyadic_pos:
  assumes k: "0 < k" "k < 2 ^ 53"
  shows "rnd (of_int k * 2 powi e) = of_int k * 2 powi e"
proof -
  let ?x = "(of_int k :: rat) * 2 powi e"
  let ?l = "expo (of_int k)"
  have kp: "(0::rat) < of_int k" using k by simp
  have kne: "(of_int k :: rat) \<noteq> 0" using k by simp
  have kl: "2 powi ?l \<le> (of_int k :: rat)" and ku: "(of_int k :: rat) < 2 powi (?l + 1)"
    using expo_bounds[OF kne] kp by simp_all
  have "(of_int k :: rat) < of_int (2 ^ 53)" using k(2) by (simp only: of_int_less_iff)
  then have "(2::rat) powi ?l < 2 powi 53" using kl by simp
  then have l52: "?l \<le> 52"
    using powi_mono[of 53 ?l] by (cases "?l \<le> 52") simp_all
  have xp: "0 < ?x" using kp powi_pos[of e] by simp
  have "2 powi (?l + e) \<le> \<bar>?x\<bar>"
    using kl powi_pos[of e] xp by (simp add: power_int_add mult_right_mono)
  moreover have "\<bar>?x\<bar> < 2 powi (?l + e + 1)"
  proof -
    have "?x < 2 powi (?l + 1) * 2 powi e"
      using ku powi_pos[of e] by (simp add: mult_strict_right_mono)
    also have "\<dots> = 2 powi (?l + e + 1)"
      by (simp add: power_int_add)
    finally show ?thesis using xp by simp
  qed
  ultimately have ex: "expo ?x = ?l + e" by (rule expo_unique)
  have sc: "?x / 2 powi (?l + e - 52) = of_int (k * 2 ^ nat (52 - ?l))"
  proof -
    have "(2::rat) powi e = 2 powi (52 - ?l) * 2 powi (?l + e - 52)"
      by (simp flip: power_int_add)
    then have "?x / 2 powi (?l + e - 52) = of_int k * 2 powi (52 - ?l)"
      by simp
    also have "\<dots> = of_int (k * 2 ^ nat (52 - ?l))"
      using l52 by (simp add: power_int_def)
    finally show ?thesis .
  qed
  have "rnd ?x = of_int (round_half_even (?x / 2 powi (?l + e - 52))) * 2 powi (?l + e - 52)"
    using k(1) by (simp add: rnd_def Let_def ex)
  also have "\<dots> = (?x / 2 powi (?l + e - 52)) * 2 powi (?l + e - 52)"
    unfolding sc round_half_even_of_int ..
  also have "\<dots> = ?x" by simp
  finally show ?thesis .
qed

lemma rnd_dyadic:
  assumes "\<bar>k\<bar> < 2 ^ 53"
  shows "rnd (of_int k * 2 powi e) = of_int k * 2 powi e"
proof -
  consider "0 < k" | "k = 0" | "k < 0" by linarith
  then show ?thesis
  proof cases
    case 1 then show ?thesis using assms by (intro rnd_dyadic_pos) simp_all
  next
    case 2 then show ?thesis by simp
  next
    case 3
    then have "rnd (of_int (- k) * 2 powi e) = of_int (- k) * 2 powi e"
      using assms by (intro rnd_dyadic_pos) simp_all
    then have "rnd (- (of_int k * 2 powi e)) = - (of_int k * 2 powi e)" by simp
    then show ?thesis unfolding rnd_minus by simp
  qed
qed

lemma rnd_of_int:
  assumes "\<bar>k\<bar> < 2 ^ 53"
  shows "rnd (of_int k) = of_int k"
  using rnd_dyadic[OF assms, of 0] by simp

lemma rnd_frac:
  assumes "\<bar>m\<bar> < 2 ^ 53"
  shows "rnd (of_int m / 2 ^ n) = of_int m / 2 ^ n"
proof -
  have "(2::rat) powi (- int n) = 1 / 2 ^ n"
    by (simp add: power_int_minus_divide)
  with rnd_dyadic[OF assms, of "- int n"] show ?thesis by simp
qed

lemma rnd_nonneg: "0 \<le> x \<Longrightarrow> 0 \<le> rnd x"
  using rnd_mono[of 0 x] by simp

lemma py_float_exact: "\<bar>n\<bar> < 2 ^ 53 \<Longrightarrow> py_float n = of_int n"
  by (simp add: py_float_def rnd_of_int)

lemma py_float_small [simp]:
  "py_float 100 = 100" "py_float 15 = 15" "py_float 2 = 2"
  by (simp_all add: py_float_exact)

lemma rnd_one [simp]: "rnd 1 = 1"
  using rnd_of_int[of 1] by simp

lemma rnd_hundred [simp]: "rnd 100 = 100"
  using rnd_of_int[of 100] by simp

lemma rnd_three_halves [simp]: "rnd (3/2) = 3/2"
  using rnd_dyadic[of 3 "-1"] by simp

lemma int_truediv_fdiv: "b \<noteq> 0 \<Longrightarrow> int_truediv a b = Inr (fdiv (of_int a) (of_int b))"
  by (simp add: int_truediv_def fdiv_def)

lemma py_int_nonneg: "0 \<le> x \<Longrightarrow> py_int x = \<lfloor>x\<rfloor>"
  by (simp add: py_int_def)

lemma rnd_tenth: "rnd (1/10) = 3602879701896397 / 2 ^ 55"
  by code_simp

lemma tenth_compare:
  fixes c n :: nat
  assumes n: "n < 2 ^ 50"
  shows "(fmul (py_float (int n)) (rnd (1/10)) < of_nat c) = (n < 10 * c)"
proof -
  define k where "k = n div 10"
  define v where "v = rnd (of_nat n * (3602879701896397 / 2 ^ 55))"
  have kn: "10 * k \<le> n" "n \<le> 10 * k + 9" unfolding k_def by simp_all
  have k47: "k < 2 ^ 47" using n kn(1) by simp
  have "\<bar>int n\<bar> < 2 ^ 53" using n by simp
  then have pf: "py_float (int n) = of_nat n" by (simp add: py_float_exact)
  have fv: "fmul (py_float (int n)) (rnd (1/10)) = v"
    unfolding pf rnd_tenth fmul_def v_def ..
  \<comment> \<open>lower anchor\<close>
  have "(of_nat (10 * k) :: rat) \<le> of_nat n" using kn(1) by (simp only: of_nat_le_iff)
  then have "(of_nat k :: rat) \<le> of_nat n * (3602879701896397 / 2 ^ 55)" by simp
  then have "rnd (of_nat k) \<le> v" unfolding v_def by (rule rnd_mono)
  moreover have "rnd (of_int (int k)) = of_int (int k)"
    using k47 by (intro rnd_of_int) simp
  ultimately have lo: "of_nat k \<le> v" by simp
  \<comment> \<open>upper anchor\<close>
  have "n * 3602879701896397 \<le> (32 * k + 31) * 2 ^ 50" using kn(2) k47 by simp
  then have "(of_nat (n * 3602879701896397) :: rat) \<le> of_nat ((32 * k + 31) * 2 ^ 50)"
    by (simp only: of_nat_le_iff)
  then have "(of_nat n :: rat) * (3602879701896397 / 2 ^ 55) \<le> of_int (int (32 * k + 31)) / 2 ^ 5"
    by (simp add: field_simps)
  then have "v \<le> rnd (of_int (int (32 * k + 31)) / 2 ^ 5)" unfolding v_def by (rule rnd_mono)
  moreover have "rnd (of_int (int (32 * k + 31)) / 2 ^ 5) = of_int (int (32 * k + 31)) / 2 ^ 5"
    using k47 by (intro rnd_frac) simp
  ultimately have "v \<le> of_int (int (32 * k + 31)) / 2 ^ 5" by simp
  also have "\<dots> < of_nat k + 1" by (simp add: field_simps)
  finally have hi: "v < of_nat k + 1" .
  have "(v < of_nat c) = (k + 1 \<le> c)"
  proof
    assume "v < of_nat c"
    with lo have "(of_nat k :: rat) < of_nat c" by simp
    then show "k + 1 \<le> c" by simp
  next
    assume "k + 1 \<le> c"
    then have "(of_nat (k + 1) :: rat) \<le> of_nat c" by (simp only: of_nat_le_iff)
    with hi show "v < of_nat c" by simp
  qed
  moreover have "(k + 1 \<le> c) = (n < 10 * c)" using kn by auto
  ultimately show ?thesis unfolding fv by simp
qed

lemma dyadic_anchors:
  fixes q :: rat and m :: nat
  assumes "0 \<le> q" "q \<le> 1"
  obtains lo hi :: int where
    "0 \<le> lo" "lo \<le> 2 ^ m" "0 \<le> hi" "hi \<le> 2 ^ m"
    "of_int lo / 2 ^ m \<le> q" "q - 1 / 2 ^ m < of_int lo / 2 ^ m"
    "q \<le> of_int hi / 2 ^ m" "of_int hi / 2 ^ m < q + 1 / 2 ^ m"
proof -
  define lo where "lo = \<lfloor>q * 2 ^ m\<rfloor>"
  define hi where "hi = \<lceil>q * 2 ^ m\<rceil>"
  have q0: "0 \<le> q * 2 ^ m" using assms(1) by simp
  have q1: "q * 2 ^ m \<le> 2 ^ m" using assms(2) by simp
  have l0: "0 \<le> lo" unfolding lo_def using q0 by simp
  have "lo \<le> \<lfloor>(2::rat) ^ m\<rfloor>" unfolding lo_def using q1 by (rule floor_mono)
  then have l1: "lo \<le> 2 ^ m" by simp
  have h0: "0 \<le> hi" unfolding hi_def using q0 by (simp add: ceiling_le_iff le_ceiling_iff)
  have "hi \<le> \<lceil>(2::rat) ^ m\<rceil>" unfolding hi_def using q1 by (rule ceiling_mono)
  then have h1: "hi \<le> 2 ^ m" by simp
  have a: "of_int lo \<le> q * 2 ^ m" "q * 2 ^ m < of_int lo + 1"
    unfolding lo_def by linarith+
  have b: "q * 2 ^ m \<le> of_int hi" "of_int hi < q * 2 ^ m + 1"
    unfolding hi_def by linarith+
  have p: "(0::rat) < 2 ^ m" by simp
  have "of_int lo / 2 ^ m \<le> q" using a(1) p by (simp add: pos_divide_le_eq)
  moreover have "q - 1 / 2 ^ m < of_int lo / 2 ^ m"
  proof -
    have "q < (of_int lo + 1) / 2 ^ m" using a(2) p by (simp add: pos_less_divide_eq)
    then show ?thesis by (simp add: add_divide_distrib)
  qed
  moreover have "q \<le> of_int hi / 2 ^ m" using b(1) p by (simp add: pos_le_divide_eq)
  moreover have "of_int hi / 2 ^ m < q + 1 / 2 ^ m"
  proof -
    have "of_int hi / 2 ^ m < (q * 2 ^ m + 1) / 2 ^ m"
      using b(2) p by (intro divide_strict_right_mono)
    then show ?thesis by (simp add: add_divide_distrib)
  qed
  ultimately show ?thesis using l0 l1 h0 h1 that by blast
qed

text \<open>Scaling a rounded ratio by a small integer constant, between dyadic anchors.\<close>

lemma scaled_ratio_bounds:
  fixes q :: rat and K :: int
  assumes q: "0 \<le> q" "q \<le> 1" and K: "0 < K" "K \<le> 255"
  shows "of_int K * q - of_int K / 2 ^ 45 < rnd (rnd q * of_int K)"
    and "rnd (rnd q * of_int K) < of_int K * q + of_int K / 2 ^ 45"
proof -
  from dyadic_anchors[OF q, of 45] obtain lo hi :: int where
    h: "0 \<le> lo" "lo \<le> 2 ^ 45" "0 \<le> hi" "hi \<le> 2 ^ 45"
    "of_int lo / 2 ^ 45 \<le> q" "q - 1 / 2 ^ 45 < of_int lo / 2 ^ 45"
    "q \<le> of_int hi / 2 ^ 45" "of_int hi / 2 ^ 45 < q + 1 / 2 ^ 45"
    by blast
  have Kp: "(0::rat) < of_int K" using K(1) by simp
  have klo: "\<bar>K * lo\<bar> < 2 ^ 53"
  proof -
    have "K * lo \<le> 255 * 2 ^ 45" using K h(1,2) by (intro mult_mono) simp_all
    moreover have "0 \<le> K * lo" using K h(1) by simp
    ultimately show ?thesis by simp
  qed
  have khi: "\<bar>K * hi\<bar> < 2 ^ 53"
  proof -
    have "K * hi \<le> 255 * 2 ^ 45" using K h(3,4) by (intro mult_mono) simp_all
    moreover have "0 \<le> K * hi" using K h(3) by simp
    ultimately show ?thesis by simp
  qed
  have rlo: "rnd (of_int lo / 2 ^ 45) = of_int lo / 2 ^ 45"
    using h(1,2) by (intro rnd_frac) simp
  have rhi: "rnd (of_int hi / 2 ^ 45) = of_int hi / 2 ^ 45"
    using h(3,4) by (intro rnd_frac) simp
  have "of_int lo / 2 ^ 45 \<le> rnd q" using rnd_mono[OF h(5)] unfolding rlo .
  then have "of_int lo / 2 ^ 45 * of_int K \<le> rnd q * of_int K"
    using Kp by (intro mult_right_mono) simp_all
  then have "rnd (of_int (K * lo) / 2 ^ 45) \<le> rnd (rnd q * of_int K)"
    by (intro rnd_mono) (simp add: mult.commute)
  then have "of_int (K * lo) / 2 ^ 45 \<le> rnd (rnd q * of_int K)"
    unfolding rnd_frac[OF klo] .
  moreover have "of_int K * q - of_int K / 2 ^ 45 < of_int (K * lo) / 2 ^ 45"
  proof -
    have "of_int K * (q - 1 / 2 ^ 45) < of_int K * (of_int lo / 2 ^ 45)"
      using h(6) Kp by (intro mult_strict_left_mono)
    then show ?thesis by (simp add: algebra_simps)
  qed
  ultimately show "of_int K * q - of_int K / 2 ^ 45 < rnd (rnd q * of_int K)" by simp
  have "rnd q \<le> of_int hi / 2 ^ 45" using rnd_mono[OF h(7)] unfolding rhi .
  then have "rnd q * of_int K \<le> of_int hi / 2 ^ 45 * of_int K"
    using Kp by (intro mult_right_mono) simp_all
  then have "rnd (rnd q * of_int K) \<le> rnd (of_int (K * hi) / 2 ^ 45)"
    by (intro rnd_mono) (simp add: mult.commute)
  then have "rnd (rnd q * of_int K) \<le> of_int (K * hi) / 2 ^ 45"
    unfolding rnd_frac[OF khi] .
  moreover have "of_int (K * hi) / 2 ^ 45 < of_int K * q + of_int K / 2 ^ 45"
  proof -
    have "of_int K * (of_int hi / 2 ^ 45) < of_int K * (q + 1 / 2 ^ 45)"
      using h(8) Kp by (intro mult_strict_left_mono)
    then show ?thesis by (simp add: algebra_simps)
  qed
  ultimately show "rnd (rnd q * of_int K) < of_int K * q + of_int K / 2 ^ 45" by simp
qed

section \<open>Strings\<close>

lemma split_ws_acc_empty_iff:
  "split_ws_acc sp cur s = [] \<longleftrightarrow> cur = [] \<and> (\<forall>c\<in>set s. sp c)"
  by (induction s arbitrary: cur) auto

lemma str_split_empty_iff: "str_split U s = [] \<longleftrightarrow> (\<forall>c\<in>set s. isspace U c)"
  by (simp add: str_split_def split_ws_acc_empty_iff)

lemma length_split_sep_acc: "length (split_sep_acc sep cur s) = count_list s sep + 1"
  by (induction s arbitrary: cur) auto

lemma length_str_split_on: "length (str_split_on sep s) = count_list s sep + 1"
  by (simp add: str_split_on_def length_split_sep_acc)

lemma str_contains_iff: "str_contains s w \<longleftrightarrow> sublist w s"
  by (induction s) (auto simp: sublist_Cons_right)

lemma count_present_eq:
  assumes "distinct ws"
  shows "count_present ws s = int (card {w \<in> set ws. sublist w s})"
proof -
  have "sum_list (map (\<lambda>word. 1::int) xs) = int (length xs)" for xs :: "str list"
    by (induction xs) auto
  then have "count_present ws s = int (length (filter (\<lambda>w. sublist w s) ws))"
    by (simp add: count_present_def str_contains_iff)
  also have "\<dots> = int (card ({w. sublist w s} \<inter> set ws))"
    using assms by (simp add: distinct_length_filter)
  also have "{w. sublist w s} \<inter> set ws = {w \<in> set ws. sublist w s}" by auto
  finally show ?thesis .
qed

lemma ascii_keeps_words: "case_mapping_keeps_words ascii"
proof -
  have "ascii_isspace (ascii_lower_char c) = ascii_isspace c" for c
    by (auto simp: ascii_isspace_def ascii_lower_char_def)
  then show ?thesis
    by (simp add: case_mapping_keeps_words_def str_split_empty_iff ascii_def)
qed

section \<open>The quick ATS score\<close>

lemma re_unbound: "load_global module_globals ''re'' = Inl (NameError ''re'')"
  by (simp add: load_global_def module_globals_def)

lemma search_year_intro:
  assumes "isdecimal U a" "isdecimal U b" "isdecimal U c" "isdecimal U d"
    and "at_boundary U (if pre = [] then prev else Some (last pre)) (Some a)"
    and "at_boundary U (Some d) (first_char post)"
  shows "search_year U prev (pre @ [a, b, c, d] @ post)"
  using assms
proof (induction pre arbitrary: prev)
  case Nil
  then show ?case by (simp add: match_year_here_def)
next
  case (Cons x pre)
  have "at_boundary U (if pre = [] then Some x else Some (last pre)) (Some a)"
    using Cons.prems(5) by (cases "pre = []") simp_all
  with Cons.prems have "search_year U (Some x) (pre @ [a, b, c, d] @ post)"
    by (intro Cons.IH) simp_all
  then show ?case by simp
qed

lemma search_year_elim:
  assumes "search_year U prev s"
  shows "\<exists>pre a b c d post. s = pre @ [a, b, c, d] @ post
        \<and> isdecimal U a \<and> isdecimal U b \<and> isdecimal U c \<and> isdecimal U d
        \<and> at_boundary U (if pre = [] then prev else Some (last pre)) (Some a)
        \<and> at_boundary U (Some d) (first_char post)"
  using assms
proof (induction s arbitrary: prev)
  case Nil
  then show ?case by (simp add: match_year_here_def)
next
  case (Cons x xs)
  show ?case
  proof (cases "match_year_here U prev (x # xs)")
    case True
    then obtain a b c d rest where m: "x # xs = a # b # c # d # rest"
      "at_boundary U prev (Some a)" "isdecimal U a" "isdecimal U b" "isdecimal U c"
      "isdecimal U d" "at_boundary U (Some d) (first_char rest)"
      by (auto simp: match_year_here_def split: list.splits)
    have "x # xs = [] @ [a, b, c, d] @ rest" using m(1) by simp
    moreover have "at_boundary U (if ([]::str) = [] then prev else Some (last [])) (Some a)"
      using m(2) by simp
    ultimately show ?thesis using m(3-7) by blast
  next
    case False
    with Cons.prems have "search_year U (Some x) xs" by simp
    from Cons.IH[OF this] obtain pre a b c d post where h: "xs = pre @ [a, b, c, d] @ post"
      "isdecimal U a" "isdecimal U b" "isdecimal U c" "isdecimal U d"
      "at_boundary U (if pre = [] then Some x else Some (last pre)) (Some a)"
      "at_boundary U (Some d) (first_char post)"
      by blast
    have "x # xs = (x # pre) @ [a, b, c, d] @ post" using h(1) by simp
    moreover have "at_boundary U (if x # pre = [] then prev else Some (last (x # pre))) (Some a)"
      using h(6) by (cases "pre = []") simp_all
    ultimately show ?thesis using h(2-5) h(7) by blast
  qed
qed

lemma re_search_year_iff:
  assumes "digits_are_word_chars U"
  shows "re_search_year U s \<longleftrightarrow> has_standalone_year U s"
proof -
  have w: "isdecimal U c \<Longrightarrow> word_char U c" for c
    using assms by (auto simp: digits_are_word_chars_def word_char_def)
  have b1: "isdecimal U a \<Longrightarrow>
      at_boundary U (if pre = [] then None else Some (last pre)) (Some a)
        \<longleftrightarrow> (pre = [] \<or> \<not> word_char U (last pre))" for a pre
    using w by (auto simp: at_boundary_def opt_word_def)
  have b2: "isdecimal U d \<Longrightarrow>
      at_boundary U (Some d) (first_char post) \<longleftrightarrow> (post = [] \<or> \<not> word_char U (hd post))" for d post
    using w by (cases post) (auto simp: at_boundary_def opt_word_def first_char_def)
  show ?thesis
  proof
    assume "re_search_year U s"
    then have "search_year U None s" by (simp add: re_search_year_def)
    from search_year_elim[OF this] obtain pre a b c d post where h: "s = pre @ [a, b, c, d] @ post"
      "isdecimal U a" "isdecimal U b" "isdecimal U c" "isdecimal U d"
      "at_boundary U (if pre = [] then None else Some (last pre)) (Some a)"
      "at_boundary U (Some d) (first_char post)"
      by blast
    from h(6) b1[OF h(2)] have "pre = [] \<or> \<not> word_char U (last pre)" by simp
    moreover from h(7) b2[OF h(5)] have "post = [] \<or> \<not> word_char U (hd post)" by simp
    ultimately show "has_standalone_year U s"
      unfolding has_standalone_year_def using h(1-5) by blast
  next
    assume "has_standalone_year U s"
    then obtain pre a b c d post where h: "s = pre @ [a, b, c, d] @ post"
      "isdecimal U a" "isdecimal U b" "isdecimal U c" "isdecimal U d"
      "pre = [] \<or> \<not> word_char U (last pre)" "post = [] \<or> \<not> word_char U (hd post)"
      unfolding has_standalone_year_def by blast
    from h(6) b1[OF h(2)]
    have "at_boundary U (if pre = [] then None else Some (last pre)) (Some a)" by simp
    moreover from h(7) b2[OF h(5)] have "at_boundary U (Some d) (first_char post)" by simp
    ultimately have "search_year U None (pre @ [a, b, c, d] @ post)"
      using h(2-5) by (intro search_year_intro)
    then show "re_search_year U s" by (simp add: re_search_year_def h(1))
  qed
qed

text \<open>
  With \<^verbatim>\<open>re\<close> bound in the namespace the method returns the score of four
  deductions, which is at least 45.
\<close>

lemma quick_ats_score_with_re:
  assumes re: "''re'' \<in> set G"
    and U: "digits_are_word_chars U"
    and n: "length resume_text < 2 ^ 50"
  shows "calculate_quick_ats_score U G self resume_text =
     Inr (max 0 (100
        - (if length resume_text < 500 then 20 else 0)
        - (if has_standalone_year U resume_text then 0 else 15)
        - (if 64 \<in> set resume_text then 0 else 10)
        - (if 10 * length (filter (\<lambda>c. \<not> word_char U c \<and> \<not> isspace U c) resume_text)
               > length resume_text then 10 else 0)))"
proof -
  have g: "load_global G ''re'' = Inr ()" using re by (simp add: load_global_def)
  show ?thesis
    unfolding calculate_quick_ats_score_def Let_def g
    by (simp add: re_search_year_iff[OF U] re_search_at_def re_findall_special_def
        len_def tenth_compare[OF n])
qed

lemma quick_ats_score_with_re_range:
  assumes "''re'' \<in> set G"
  shows "\<exists>score. calculate_quick_ats_score U G self resume_text = Inr score \<and> 45 \<le> score \<and> score \<le> 100"
proof -
  have g: "load_global G ''re'' = Inr ()" using assms by (simp add: load_global_def)
  show ?thesis
    unfolding calculate_quick_ats_score_def Let_def g by simp
qed

text \<open>
  C1. The method reads the global name \<^verbatim>\<open>re\<close>, which the module never imports: for
  every resume text the call raises NameError at the first regular expression, after
  the length check, and no score is returned.
\<close>

theorem quick_ats_score_raises:
  "calculate_quick_ats_score U module_globals self resume_text = Inl (NameError ''re'')"
  by (simp add: calculate_quick_ats_score_def re_unbound Let_def)

section \<open>Keyword density\<close>

text \<open>
  The float product is not the exact one: 29 common words out of 100 give 28.
\<close>

lemma keyword_density_rounds_down: "py_int (fmul (fdiv 29 100) 100) = 28"
  by code_simp

text \<open>
  Up to \<open>2 ^ 38\<close> distinct words in the job description, the float result is the
  exact truncated percentage or one less.
\<close>

lemma keyword_density_vs_exact:
  fixes a b :: nat
  assumes ab: "a \<le> b" "0 < b" and b: "b \<le> 2 ^ 38"
  shows "(100 * int a) div int b - 1 \<le> py_int (fmul (fdiv (of_nat a) (of_nat b)) 100)"
    and "py_int (fmul (fdiv (of_nat a) (of_nat b)) 100) \<le> (100 * int a) div int b"
proof -
  define q :: rat where "q = of_nat a / of_nat b"
  define n where "n = (100 * int a) div int b"
  define x where "x = rnd (rnd q * 100)"
  have bp: "(0::rat) < of_nat b" using ab(2) by simp
  have q0: "0 \<le> q" unfolding q_def by simp
  have "(of_nat a :: rat) \<le> of_nat b" using ab(1) by (simp only: of_nat_le_iff)
  then have q1: "q \<le> 1" unfolding q_def using bp by (simp add: divide_le_eq_1)
  have fx: "fmul (fdiv (of_nat a) (of_nat b)) 100 = x"
    by (simp add: fmul_def fdiv_def x_def q_def)
  from scaled_ratio_bounds[OF q0 q1, of 100]
  have lo: "100 * q - 100 / 2 ^ 45 < x" and hi: "x < 100 * q + 100 / 2 ^ 45"
    unfolding x_def by simp_all
  define r where "r = (100 * int a) mod int b"
  have bi: "0 < int b" using ab(2) by simp
  have dm: "100 * int a = n * int b + r" unfolding n_def r_def by simp
  have r0: "0 \<le> r" and r1: "r < int b" unfolding r_def using bi by simp_all
  have "(of_int (100 * int a) :: rat) = of_int (n * int b + r)" using dm by simp
  then have "100 * (of_nat a :: rat) = of_int n * of_nat b + of_int r" by simp
  then have "100 * q = (of_int n * of_nat b + of_int r) / of_nat b"
    unfolding q_def by simp
  also have "\<dots> = of_int n + of_int r / of_nat b"
    using bp by (simp add: add_divide_distrib)
  finally have qe: "100 * q = of_int n + of_int r / of_nat b" .
  have rb0: "(0::rat) \<le> of_int r / of_nat b" using r0 by simp
  have "r + 1 \<le> int b" using r1 by simp
  then have "(of_int (r + 1) :: rat) \<le> of_int (int b)" by (simp only: of_int_le_iff)
  then have "(of_int r :: rat) + 1 \<le> of_nat b" by simp
  then have "((of_int r :: rat) + 1) / of_nat b \<le> 1"
    using bp by (simp add: divide_le_eq_1)
  then have rb1: "(of_int r :: rat) / of_nat b + 1 / of_nat b \<le> 1"
    by (simp add: add_divide_distrib)
  have "(of_nat b :: rat) \<le> of_nat (2 ^ 38)" using b by (simp only: of_nat_le_iff)
  then have "(1::rat) / 2 ^ 38 \<le> 1 / of_nat b" using bp by (simp add: field_simps)
  moreover have "(100::rat) / 2 ^ 45 < 1 / 2 ^ 38" by simp
  ultimately have sm: "(100::rat) / 2 ^ 45 < 1 / of_nat b" by linarith
  have x_lo: "of_int (n - 1) < x" using lo qe rb0 by simp
  have x_hi: "x < of_int (n + 1)" using hi qe rb1 sm by simp
  have "0 \<le> rnd q" using q0 by (rule rnd_nonneg)
  then have x0: "0 \<le> x" unfolding x_def by (intro rnd_nonneg) simp
  have "n - 1 \<le> \<lfloor>x\<rfloor>" using x_lo by (subst le_floor_iff) simp
  then show "(100 * int a) div int b - 1 \<le> py_int (fmul (fdiv (of_nat a) (of_nat b)) 100)"
    unfolding fx using x0 by (simp add: py_int_nonneg n_def)
  have "\<lfloor>x\<rfloor> < n + 1" using x_hi by (subst floor_less_iff) simp
  then show "py_int (fmul (fdiv (of_nat a) (of_nat b)) 100) \<le> (100 * int a) div int b"
    unfolding fx using x0 by (simp add: py_int_nonneg n_def)
qed

lemma keyword_density_off_by_one:
  assumes ne: "set (str_split U (lower U job_description)) \<noteq> {}"
    and sz: "card (set (str_split U (lower U job_description))) \<le> 2 ^ 38"
  shows "\<exists>n. calculate_keyword_density U self resume_text job_description = Inr n
           \<and> (100 * int (card (set (str_split U (lower U resume_text))
                                  \<inter> set (str_split U (lower U job_description)))))
                 div int (card (set (str_split U (lower U job_description)))) - 1 \<le> n
           \<and> n \<le> (100 * int (card (set (str_split U (lower U resume_text))
                                  \<inter> set (str_split U (lower U job_description)))))
                 div int (card (set (str_split U (lower U job_description))))"
proof -
  let ?rw = "set (str_split U (lower U resume_text))"
  let ?jw = "set (str_split U (lower U job_description))"
  have j: "0 < card ?jw" using ne by (simp add: card_gt_0_iff)
  have c: "card (?rw \<inter> ?jw) \<le> card ?jw" by (intro card_mono) simp_all
  have "calculate_keyword_density U self resume_text job_description
          = Inr (py_int (fmul (fdiv (of_nat (card (?rw \<inter> ?jw))) (of_nat (card ?jw))) 100))"
    using ne j by (simp add: calculate_keyword_density_def Let_def int_truediv_fdiv)
  with keyword_density_vs_exact[OF c j sz] show ?thesis by simp
qed

text \<open>
  The resume with 29 of the 50 words of the job description: \<open>29 / 50\<close> rounds to a
  float below 0.58, and the product with 100 to one below 58.
\<close>

lemma fifty_word_jd_words: "str_split ascii (lower ascii fifty_word_jd) = fifty_words"
  by code_simp

lemma twenty_nine_word_resume_words:
  "str_split ascii (lower ascii twenty_nine_word_resume) = twenty_nine_words"
  by code_simp

lemma card_fifty_words: "card (set fifty_words) = 50"
  by code_simp

lemma card_common_words: "card (set twenty_nine_words \<inter> set fifty_words) = 29"
  by code_simp

lemma fifty_words_nonempty: "set fifty_words \<noteq> {}"
proof
  assume "set fifty_words = {}"
  then have "card (set fifty_words) = 0" by (simp only: card.empty)
  with card_fifty_words show False by simp
qed

lemma twenty_nine_of_fifty: "py_int (fmul (fdiv (of_nat 29) (of_nat 50)) 100) = 57"
  by code_simp

text \<open>
  The method never divides by zero: its result is the truncated float product.
\<close>

lemma keyword_density_float:
  "calculate_keyword_density U self resume_text job_description =
     Inr (if set (str_split U (lower U job_description)) = {} then 0
          else py_int (fmul (fdiv (of_nat (card (set (str_split U (lower U resume_text))
                                                 \<inter> set (str_split U (lower U job_description)))))
                                  (of_nat (card (set (str_split U (lower U job_description)))))) 100))"
proof -
  let ?jw = "set (str_split U (lower U job_description))"
  have c: "?jw \<noteq> {} \<Longrightarrow> card ?jw \<noteq> 0" by simp
  show ?thesis
    unfolding calculate_keyword_density_def Let_def
    using c by (auto simp: int_truediv_fdiv)
qed

lemma keyword_density_fifty:
  "calculate_keyword_density ascii () twenty_nine_word_resume fifty_word_jd = Inr 57"
  unfolding keyword_density_float fifty_word_jd_words twenty_nine_word_resume_words
    card_fifty_words card_common_words twenty_nine_of_fifty
  using fifty_words_nonempty by (simp only: if_False)

text \<open>
  C2. The keyword density is the truncation of \<open>a / b * 100\<close> as Python computes it on
  floats, with \<open>a\<close> the number of distinct lower-cased words common to both texts and
  \<open>b\<close> the number of distinct lower-cased words of the job description. Up to
  \<open>2 ^ 38\<close> distinct words in the job description this is the exact truncated
  percentage \<open>100 * a div b\<close> or one less. A job description without words gives 0.
\<close>

theorem keyword_density_amended:
  "let rw = set (str_split U (lower U resume_text));
       jw = set (str_split U (lower U job_description));
       d = calculate_keyword_density U self resume_text job_description;
       e = (100 * int (card (rw \<inter> jw))) div int (card jw)
   in d = Inr (if jw = {} then 0
               else py_int (fmul (fdiv (of_nat (card (rw \<inter> jw))) (of_nat (card jw))) 100))
      \<and> (jw \<noteq> {} \<and> card jw \<le> 2 ^ 38 \<longrightarrow> d = Inr e \<or> d = Inr (e - 1))
      \<and> (case_mapping_keeps_words U \<and> str_split U job_description = [] \<longrightarrow> d = Inr 0)"
proof -
  let ?rw = "set (str_split U (lower U resume_text))"
  let ?jw = "set (str_split U (lower U job_description))"
  let ?d = "calculate_keyword_density U self resume_text job_description"
  let ?e = "(100 * int (card (?rw \<inter> ?jw))) div int (card ?jw)"
  have k: "case_mapping_keeps_words U \<Longrightarrow> str_split U job_description = [] \<Longrightarrow> ?jw = {}"
    by (simp add: case_mapping_keeps_words_def)
  note f = keyword_density_float[of U self resume_text job_description]
  have o: "?d = Inr ?e \<or> ?d = Inr (?e - 1)" if "?jw \<noteq> {}" "card ?jw \<le> 2 ^ 38"
  proof -
    from keyword_density_off_by_one[OF that, of self resume_text]
    obtain n where n: "?d = Inr n" "?e - 1 \<le> n" "n \<le> ?e" by blast
    then have "n = ?e \<or> n = ?e - 1" by linarith
    with n(1) show ?thesis by blast
  qed
  have z: "?d = Inr 0" if "case_mapping_keeps_words U" "str_split U job_description = []"
    using f k[OF that] by simp
  from f o z show ?thesis unfolding Let_def by blast
qed

theorem keyword_density_amended_witness:
  "calculate_keyword_density ascii () twenty_nine_word_resume fifty_word_jd = Inr 57
   \<and> (calculate_keyword_density ascii () twenty_nine_word_resume fifty_word_jd = Inr 58
        \<or> calculate_keyword_density ascii () twenty_nine_word_resume fifty_word_jd = Inr 57)
   \<and> calculate_keyword_density ascii () twenty_nine_word_resume (lit ''  '') = Inr 0"
proof -
  note t = keyword_density_amended[of ascii twenty_nine_word_resume fifty_word_jd "()",
      unfolded Let_def fifty_word_jd_words twenty_nine_word_resume_words
        card_fifty_words card_common_words]
  from t have "calculate_keyword_density ascii () twenty_nine_word_resume fifty_word_jd
      = Inr (if set fifty_words = {} then 0 else py_int (fmul (fdiv (of_nat 29) (of_nat 50)) 100))"
    by (rule conjunct1)
  then have a: "calculate_keyword_density ascii () twenty_nine_word_resume fifty_word_jd = Inr 57"
    unfolding twenty_nine_of_fifty using fifty_words_nonempty by (simp only: if_False)
  have sz: "(50::nat) \<le> 2 ^ 38" by simp
  have ex: "(100 * int 29) div int 50 = 58" "(100 * int 29) div int 50 - 1 = 57" by simp_all
  from t have "set fifty_words \<noteq> {} \<and> (50::nat) \<le> 2 ^ 38 \<longrightarrow>
      calculate_keyword_density ascii () twenty_nine_word_resume fifty_word_jd
        = Inr ((100 * int 29) div int 50)
      \<or> calculate_keyword_density ascii () twenty_nine_word_resume fifty_word_jd
        = Inr ((100 * int 29) div int 50 - 1)"
    by (rule conjunct1[OF conjunct2])
  with fifty_words_nonempty sz
  have "calculate_keyword_density ascii () twenty_nine_word_resume fifty_word_jd
        = Inr ((100 * int 29) div int 50)
      \<or> calculate_keyword_density ascii () twenty_nine_word_resume fifty_word_jd
        = Inr ((100 * int 29) div int 50 - 1)"
    by blast
  then have o: "calculate_keyword_density ascii () twenty_nine_word_resume fifty_word_jd = Inr 58
        \<or> calculate_keyword_density ascii () twenty_nine_word_resume fifty_word_jd = Inr 57"
    unfolding ex by simp
  have b: "str_split ascii (lit ''  '') = []" by code_simp
  from keyword_density_amended[of ascii twenty_nine_word_resume "lit ''  ''" "()"]
  have "calculate_keyword_density ascii () twenty_nine_word_resume (lit ''  '') = Inr 0"
    unfolding Let_def using ascii_keeps_words b by blast
  with a o show ?thesis by blast
qed

text \<open>
  The exact truncated percentage is not always returned: the resume with 29 of the 50
  words of the job description scores 57, and \<open>29 / 50 * 100\<close> is 58.
\<close>

theorem keyword_density_counterexample:
  "calculate_keyword_density ascii () twenty_nine_word_resume fifty_word_jd
     \<noteq> Inr \<lfloor>(of_nat (card (set (str_split ascii (lower ascii twenty_nine_word_resume))
                              \<inter> set (str_split ascii (lower ascii fifty_word_jd)))) :: rat)
               / of_nat (card (set (str_split ascii (lower ascii fifty_word_jd)))) * 100\<rfloor>"
proof -
  have "\<lfloor>(of_nat 29 :: rat) / of_nat 50 * 100\<rfloor> = 58" by simp
  then show ?thesis
    unfolding keyword_density_fifty fifty_word_jd_words twenty_nine_word_resume_words
      card_fifty_words card_common_words
    by simp
qed

section \<open>Readability\<close>

lemma sentences_nonempty: "max (len (str_split_on 46 txt)) 1 \<noteq> 0"
  by (simp add: len_def)

lemma readability_of_avg_antimono:
  assumes "x \<le> y"
  shows "readability_of_avg y \<le> readability_of_avg x"
proof -
  have "rnd (x - 15) \<le> rnd (y - 15)" using assms by (intro rnd_mono) simp
  then have "rnd (rnd (x - 15) * 2) \<le> rnd (rnd (y - 15) * 2)" by (intro rnd_mono) simp
  then have "rnd (100 - rnd (rnd (y - 15) * 2)) \<le> rnd (100 - rnd (rnd (x - 15) * 2))"
    by (intro rnd_mono) simp
  then show ?thesis by (simp add: readability_of_avg_def fsub_def fmul_def)
qed

lemma readability_of_avg_exact:
  assumes "\<bar>k\<bar> < 2 ^ 52"
  shows "readability_of_avg (of_int k / 2 ^ 45) = 100 - (of_int k / 2 ^ 45 - 15) * 2"
proof -
  let ?x = "(of_int k :: rat) / 2 ^ 45"
  have a: "?x - 15 = of_int (k - 15 * 2 ^ 45) / 2 ^ 45" by (simp add: field_simps)
  have "\<bar>k - 15 * 2 ^ 45\<bar> < (2::int) ^ 53" using assms by simp
  then have r1: "rnd (?x - 15) = of_int (k - 15 * 2 ^ 45) / 2 ^ 45"
    unfolding a by (rule rnd_frac)
  have b: "(of_int (k - 15 * 2 ^ 45) :: rat) / 2 ^ 45 * 2 = of_int (k - 15 * 2 ^ 45) / 2 ^ 44"
    by simp
  have "\<bar>k - 15 * 2 ^ 45\<bar> < (2::int) ^ 53" using assms by simp
  then have r2: "rnd (rnd (?x - 15) * 2) = of_int (k - 15 * 2 ^ 45) / 2 ^ 44"
    unfolding r1 b by (rule rnd_frac)
  have c: "100 - (of_int (k - 15 * 2 ^ 45) :: rat) / 2 ^ 44 = of_int (130 * 2 ^ 44 - k) / 2 ^ 44"
    by (simp add: field_simps)
  have "\<bar>130 * 2 ^ 44 - k\<bar> < (2::int) ^ 53" using assms by simp
  then have r3: "rnd (100 - rnd (rnd (?x - 15) * 2)) = of_int (130 * 2 ^ 44 - k) / 2 ^ 44"
    unfolding r2 c by (rule rnd_frac)
  have "of_int (130 * 2 ^ 44 - k) / 2 ^ 44 = 100 - (?x - 15) * 2"
    by (simp add: field_simps)
  with r3 show ?thesis by (simp add: readability_of_avg_def fsub_def fmul_def)
qed

lemma readability_of_avg_half:
  assumes "0 \<le> j" "j \<le> 130"
  shows "readability_of_avg (of_int j / 2) = 130 - of_int j"
proof -
  have "(of_int j :: rat) / 2 = of_int (j * 2 ^ 44) / 2 ^ 45" by simp
  moreover have "\<bar>j * 2 ^ 44\<bar> < (2::int) ^ 52" using assms by simp
  ultimately have "readability_of_avg (of_int j / 2) = 100 - (of_int j / 2 - 15) * 2"
    using readability_of_avg_exact[of "j * 2 ^ 44"] by simp
  then show ?thesis by (simp add: field_simps)
qed

lemma rnd_half:
  assumes "0 \<le> j" "j \<le> 130"
  shows "rnd (of_int j / 2) = of_int j / 2"
  using rnd_frac[of j 1] assms by simp

lemma readability_exact:
  fixes w s :: nat
  assumes s: "0 < s" "s \<le> 2 ^ 44"
  shows "py_int (max 0 (min 100 (readability_of_avg (fdiv (of_nat w) (of_nat s)))))
         = \<lfloor>max 0 (min 100 (100 - ((of_nat w :: rat) / of_nat s - 15) * 2))\<rfloor>"
proof -
  define q :: rat where "q = of_nat w / of_nat s"
  define a where "a = rnd q"
  define E where "E = 100 - (q - 15) * 2"
  have sp: "(0::rat) < of_nat s" using s by simp
  have Eeq: "E = 130 - 2 * q" by (simp add: E_def algebra_simps)
  have fa: "fdiv (of_nat w) (of_nat s) = a" by (simp add: fdiv_def a_def q_def)
  consider "q \<le> 15" | "65 \<le> q" | "15 < q" "q < 65" by linarith
  then have "py_int (max 0 (min 100 (readability_of_avg a))) = \<lfloor>max 0 (min 100 E)\<rfloor>"
  proof cases
    case 1
    have "a \<le> rnd 15" unfolding a_def using 1 by (rule rnd_mono)
    then have "a \<le> 15" using rnd_of_int[of 15] by simp
    from readability_of_avg_antimono[OF this]
    have "100 \<le> readability_of_avg a"
      using readability_of_avg_half[of 30] by simp
    then have l: "max 0 (min 100 (readability_of_avg a)) = 100" by simp
    have "100 \<le> E" unfolding Eeq using 1 by simp
    then have r: "max 0 (min 100 E) = 100" by simp
    show ?thesis unfolding l r by (simp add: py_int_def)
  next
    case 2
    have "rnd 65 \<le> a" unfolding a_def using 2 by (rule rnd_mono)
    then have "65 \<le> a" using rnd_of_int[of 65] by simp
    from readability_of_avg_antimono[OF this]
    have "readability_of_avg a \<le> 0"
      using readability_of_avg_half[of 130] by simp
    then have l: "max 0 (min 100 (readability_of_avg a)) = 0" by simp
    have "E \<le> 0" unfolding Eeq using 2 by simp
    then have r: "max 0 (min 100 E) = 0" by simp
    show ?thesis unfolding l r by (simp add: py_int_def)
  next
    case 3
    define j where "j = \<lfloor>2 * q\<rfloor>"
    have jl: "of_int j \<le> 2 * q" and ju: "2 * q < of_int j + 1"
      unfolding j_def by linarith+
    have "(30::int) \<le> \<lfloor>2 * q\<rfloor>" using 3(1) by (subst le_floor_iff) simp
    then have j30: "30 \<le> j" by (simp add: j_def)
    have "\<lfloor>2 * q\<rfloor> < (130::int)" using 3(2) by (subst floor_less_iff) simp
    then have j129: "j \<le> 129" by (simp add: j_def)
    have j30r: "(30::rat) \<le> of_int j" using j30 by (metis of_int_le_iff of_int_numeral)
    have j129r: "of_int j \<le> (129::rat)" using j129 by (metis of_int_le_iff of_int_numeral)
    show ?thesis
    proof (cases "2 * q = of_int j")
      case True
      then have qj: "q = of_int j / 2" by simp
      have aj: "a = of_int j / 2" unfolding a_def qj using j30 j129 by (intro rnd_half) simp_all
      have "readability_of_avg a = 130 - of_int j"
        unfolding aj using j30 j129 by (intro readability_of_avg_half) simp_all
      moreover have "E = 130 - of_int j" unfolding Eeq qj by simp
      ultimately have "max 0 (min 100 (readability_of_avg a)) = max 0 (min 100 E)" by simp
      moreover have "0 \<le> max 0 (min 100 E)" by simp
      ultimately show ?thesis by (simp add: py_int_nonneg)
    next
      case False
      with jl have jl': "of_int j < 2 * q" by simp
      have E1: "of_int (129 - j) < E" unfolding Eeq using ju by simp
      have E2: "E < of_int (130 - j)" unfolding Eeq using jl' by simp
      have fE: "\<lfloor>E\<rfloor> = 129 - j" using E1 E2 by (simp add: floor_eq_iff)
      have "0 < E" using E1 j129r by simp
      moreover have "E < 100" using E2 j30r by simp
      ultimately have "max 0 (min 100 E) = E" by simp
      with fE have r: "\<lfloor>max 0 (min 100 E)\<rfloor> = 129 - j" by simp
      have "q \<le> of_int (j + 1) / 2" using ju by simp
      then have "a \<le> rnd (of_int (j + 1) / 2)" unfolding a_def by (rule rnd_mono)
      then have "a \<le> of_int (j + 1) / 2"
        using rnd_half[of "j + 1"] j30 j129 by simp
      from readability_of_avg_antimono[OF this]
      have G1: "of_int (129 - j) \<le> readability_of_avg a"
        using readability_of_avg_half[of "j + 1"] j30 j129 by simp
      have "(of_int j :: rat) * of_nat s < 2 * of_nat w"
        using jl' sp unfolding q_def by (simp add: pos_less_divide_eq mult.commute)
      then have "(of_int (j * int s) :: rat) < of_int (2 * int w)" by simp
      then have "j * int s < 2 * int w" by (simp only: of_int_less_iff)
      then have "j * int s + 1 \<le> 2 * int w" by simp
      then have "(of_int (j * int s + 1) :: rat) \<le> of_int (2 * int w)" by (simp only: of_int_le_iff)
      then have "(of_int j :: rat) * of_nat s + 1 \<le> 2 * of_nat w" by simp
      then have "((of_int j :: rat) * of_nat s + 1) / of_nat s \<le> (2 * of_nat w) / of_nat s"
        using sp by (intro divide_right_mono) simp_all
      moreover have "((of_int j :: rat) * of_nat s + 1) / of_nat s = of_int j + 1 / of_nat s"
        using sp by (simp add: add_divide_distrib)
      ultimately have "of_int j + 1 / of_nat s \<le> 2 * q"
        unfolding q_def by simp
      moreover have "(1::rat) / 2 ^ 44 \<le> 1 / of_nat s"
      proof -
        have "(of_nat s :: rat) \<le> of_nat (2 ^ 44)" using s(2) by (simp only: of_nat_le_iff)
        then show ?thesis using sp by (simp add: field_simps)
      qed
      ultimately have "of_int j + 1 / 2 ^ 44 \<le> 2 * q" by linarith
      then have lo: "of_int (j * 2 ^ 44 + 1) / 2 ^ 45 \<le> q" by (simp add: field_simps)
      have kb: "\<bar>j * 2 ^ 44 + 1\<bar> < (2::int) ^ 52" using j30 j129 by simp
      then have kb': "\<bar>j * 2 ^ 44 + 1\<bar> < (2::int) ^ 53" by simp
      have "rnd (of_int (j * 2 ^ 44 + 1) / 2 ^ 45) \<le> a" unfolding a_def using lo by (rule rnd_mono)
      then have "of_int (j * 2 ^ 44 + 1) / 2 ^ 45 \<le> a"
        unfolding rnd_frac[OF kb'] .
      from readability_of_avg_antimono[OF this]
      have "readability_of_avg a \<le> 100 - (of_int (j * 2 ^ 44 + 1) / 2 ^ 45 - 15) * 2"
        unfolding readability_of_avg_exact[OF kb] .
      also have "\<dots> < of_int (130 - j)" by (simp add: field_simps)
      finally have G2: "readability_of_avg a < of_int (130 - j)" .
      have g0: "0 \<le> readability_of_avg a" using G1 j129r by simp
      have "readability_of_avg a < 100" using G2 j30r by simp
      with g0 have cl: "max 0 (min 100 (readability_of_avg a)) = readability_of_avg a"
        by simp
      have "\<lfloor>readability_of_avg a\<rfloor> = 129 - j" using G1 G2 by (simp add: floor_eq_iff)
      then have "py_int (max 0 (min 100 (readability_of_avg a))) = 129 - j"
        unfolding cl using g0 by (simp add: py_int_nonneg)
      with r show ?thesis by simp
    qed
  qed
  then show ?thesis unfolding fa E_def q_def .
qed

text \<open>
  C3. The readability score is the truncation of \<open>100 - (w / s - 15) * 2\<close> clamped
  to the interval from 0 to 100, where \<open>w\<close> is the number of whitespace-separated
  words and \<open>s\<close> is the number of fragments between full stops, at least 1 (it is one
  more than the number of full stops). The code computes the expression in float
  arithmetic; for a text of fewer than \<open>2 ^ 44\<close> characters the result is the one of
  exact arithmetic.
\<close>

theorem readability_spec:
  "let w = length (str_split U txt);
       s = max 1 (length (str_split_on 46 txt))
   in calculate_readability U self txt =
        Inr (py_int (max 0 (min 100 (fsub 100 (fmul (fsub (fdiv (of_nat w) (of_nat s)) 15) 2)))))
      \<and> s = count_list txt 46 + 1
      \<and> (length txt < 2 ^ 44 \<longrightarrow>
            calculate_readability U self txt =
              Inr \<lfloor>max 0 (min 100 (100 - ((of_nat w :: rat) / of_nat s - 15) * 2))\<rfloor>)"
proof -
  let ?w = "length (str_split U txt)"
  let ?s = "max 1 (length (str_split_on 46 txt))"
  have m: "max (len (str_split_on 46 txt)) 1 = int ?s"
    by (simp add: len_def)
  have c: "calculate_readability U self txt =
        Inr (py_int (max 0 (min 100 (fsub 100 (fmul (fsub (fdiv (of_nat ?w) (of_nat ?s)) 15) 2)))))"
    unfolding calculate_readability_def Let_def m
    by (simp add: int_truediv_fdiv len_def)
  have s: "?s = count_list txt 46 + 1" by (simp add: length_str_split_on)
  have e: "calculate_readability U self txt =
              Inr \<lfloor>max 0 (min 100 (100 - ((of_nat ?w :: rat) / of_nat ?s - 15) * 2))\<rfloor>"
    if "length txt < 2 ^ 44"
  proof -
    have "count_list txt 46 \<le> length txt" by (rule count_le_length)
    with that have "?s \<le> 2 ^ 44" unfolding s by simp
    moreover have "0 < ?s" by simp
    ultimately show ?thesis
      unfolding c using readability_exact[of ?s ?w]
      by (simp only: readability_of_avg_def)
  qed
  from c s e show ?thesis unfolding Let_def by blast
qed

theorem readability_spec_witness:
  "calculate_readability ascii () (lit ''a b c d e f g h i j k l m n o p q'') = Inr 96"
proof -
  have l: "length (lit ''a b c d e f g h i j k l m n o p q'') < 2 ^ 44"
    by (simp add: lit_def)
  have v: "\<lfloor>max 0 (min 100 (100 -
             ((of_nat (length (str_split ascii (lit ''a b c d e f g h i j k l m n o p q''))) :: rat)
               / of_nat (max 1 (length (str_split_on 46 (lit ''a b c d e f g h i j k l m n o p q''))))
              - 15) * 2))\<rfloor> = 96"
    by code_simp
  from readability_spec[of ascii "lit ''a b c d e f g h i j k l m n o p q''" "()"] l
  have "calculate_readability ascii () (lit ''a b c d e f g h i j k l m n o p q'') =
          Inr \<lfloor>max 0 (min 100 (100 -
             ((of_nat (length (str_split ascii (lit ''a b c d e f g h i j k l m n o p q''))) :: rat)
               / of_nat (max 1 (length (str_split_on 46 (lit ''a b c d e f g h i j k l m n o p q''))))
              - 15) * 2))\<rfloor>"
    unfolding Let_def by blast
  then show ?thesis unfolding v .
qed

section \<open>Sentiment\<close>

text \<open>
  C4. With \<open>p\<close> the number of the seven positive words and \<open>n\<close> the number of the
  four weak phrases that occur as substrings of the lower-cased text, the tone score
  is \<open>min 100 ((p - n) * 10 + 70)\<close>, and the overall tone is Strong exactly when
  \<open>p > n\<close>, Needs Improvement otherwise.
\<close>

theorem analyze_sentiment_spec:
  "let s = lower U txt;
       p = int (card {w \<in> set (map lit [''achieved'', ''improved'', ''increased'', ''successful'',
                                         ''led'', ''managed'', ''developed'']). sublist w s});
       n = int (card {w \<in> set (map lit [''responsible for'', ''duties included'', ''worked on'',
                                         ''helped with'']). sublist w s});
       r = analyze_sentiment U self txt
   in tone_score r = min 100 ((p - n) * 10 + 70)
      \<and> positive_indicators r = p \<and> weak_indicators r = n
      \<and> overall_tone r = (if p > n then lit ''Strong'' else lit ''Needs Improvement'')
      \<and> (overall_tone r = lit ''Strong'') = (p > n)"
proof -
  have d1: "distinct positive_words" by (simp add: positive_words_def lit_def)
  have d2: "distinct weak_words" by (simp add: weak_words_def lit_def)
  have ne: "lit ''Strong'' \<noteq> lit ''Needs Improvement''" by (simp add: lit_def)
  show ?thesis
    unfolding Let_def analyze_sentiment_def count_present_eq[OF d1] count_present_eq[OF d2]
    unfolding positive_words_def weak_words_def
    using ne by simp
qed

section \<open>Uniqueness\<close>

text \<open>
  C5. For a text with at least one word the uniqueness score is
  \<open>min 100 (int (u / t * 100 * 1.5))\<close> in float arithmetic, with \<open>u\<close> the number of
  distinct lower-cased words and \<open>t\<close> the number of words; for an empty or
  whitespace-only text it is 0.
\<close>

theorem uniqueness_spec:
  "(str_split U txt \<noteq> [] \<longrightarrow>
      calculate_uniqueness U self txt =
        Inr (min 100 (py_int (fmul (fmul (fdiv (of_nat (card (set (str_split U (lower U txt)))))
                                               (of_nat (length (str_split U txt)))) 100) (3/2)))))
   \<and> ((\<forall>c\<in>set txt. isspace U c) \<longrightarrow> calculate_uniqueness U self txt = Inr 0)"
proof (intro conjI impI)
  assume "str_split U txt \<noteq> []"
  then have "len (str_split U txt) > 0" by (simp add: len_def)
  then show "calculate_uniqueness U self txt =
        Inr (min 100 (py_int (fmul (fmul (fdiv (of_nat (card (set (str_split U (lower U txt)))))
                                               (of_nat (length (str_split U txt)))) 100) (3/2))))"
    by (simp add: calculate_uniqueness_def Let_def int_truediv_fdiv len_def)
next
  assume "\<forall>c\<in>set txt. isspace U c"
  then have "str_split U txt = []" by (simp add: str_split_empty_iff)
  then show "calculate_uniqueness U self txt = Inr 0"
    by (simp add: calculate_uniqueness_def Let_def len_def fmul_def py_int_def)
qed

theorem uniqueness_spec_witness:
  "calculate_uniqueness ascii () (lit ''the cat saw the dog'') = Inr 100
   \<and> calculate_uniqueness ascii () (lit ''Go go GO'') = Inr 49
   \<and> calculate_uniqueness ascii () (lit ''   '') = Inr 0"
proof -
  have a1: "str_split ascii (lit ''the cat saw the dog'') \<noteq> []" by code_simp
  have a2: "min 100 (py_int (fmul (fmul (fdiv
              (of_nat (card (set (str_split ascii (lower ascii (lit ''the cat saw the dog''))))))
              (of_nat (length (str_split ascii (lit ''the cat saw the dog''))))) 100) (3/2))) = 100"
    by code_simp
  have b1: "str_split ascii (lit ''Go go GO'') \<noteq> []" by code_simp
  have b2: "min 100 (py_int (fmul (fmul (fdiv
              (of_nat (card (set (str_split ascii (lower ascii (lit ''Go go GO''))))))
              (of_nat (length (str_split ascii (lit ''Go go GO''))))) 100) (3/2))) = 49"
    by code_simp
  have c1: "\<forall>c\<in>set (lit ''   ''). isspace ascii c" by code_simp
  from uniqueness_spec[of ascii "lit ''the cat saw the dog''" "()"] a1 a2
  have "calculate_uniqueness ascii () (lit ''the cat saw the dog'') = Inr 100" by simp
  moreover from uniqueness_spec[of ascii "lit ''Go go GO''" "()"] b1 b2
  have "calculate_uniqueness ascii () (lit ''Go go GO'') = Inr 49" by simp
  moreover from uniqueness_spec[of ascii "lit ''   ''" "()"] c1
  have "calculate_uniqueness ascii () (lit ''   '') = Inr 0" by blast
  ultimately show ?thesis by simp
qed

text \<open>
  Up to \<open>2 ^ 36\<close> words, the float result is the exact value
  \<open>min 100 (150 * u div t)\<close> or one less.
\<close>

lemma uniqueness_vs_exact:
  fixes u t :: nat
  assumes ut: "u \<le> t" "0 < t" and t: "t \<le> 2 ^ 36"
  shows "min 100 ((150 * int u) div int t) - 1
           \<le> min 100 (py_int (fmul (fmul (fdiv (of_nat u) (of_nat t)) 100) (3/2)))"
    and "min 100 (py_int (fmul (fmul (fdiv (of_nat u) (of_nat t)) 100) (3/2)))
           \<le> min 100 ((150 * int u) div int t)"
proof -
  define q :: rat where "q = of_nat u / of_nat t"
  define n where "n = (150 * int u) div int t"
  define x where "x = rnd (rnd (rnd q * 100) * (3/2))"
  have tp: "(0::rat) < of_nat t" using ut(2) by simp
  have q0: "0 \<le> q" unfolding q_def by simp
  have "(of_nat u :: rat) \<le> of_nat t" using ut(1) by (simp only: of_nat_le_iff)
  then have q1: "q \<le> 1" unfolding q_def using tp by (simp add: divide_le_eq_1)
  have fx: "fmul (fmul (fdiv (of_nat u) (of_nat t)) 100) (3/2) = x"
    by (simp add: fmul_def fdiv_def x_def q_def)
  from dyadic_anchors[OF q0 q1, of 44] obtain lo hi :: int where
    h: "0 \<le> lo" "lo \<le> 2 ^ 44" "0 \<le> hi" "hi \<le> 2 ^ 44"
    "of_int lo / 2 ^ 44 \<le> q" "q - 1 / 2 ^ 44 < of_int lo / 2 ^ 44"
    "q \<le> of_int hi / 2 ^ 44" "of_int hi / 2 ^ 44 < q + 1 / 2 ^ 44"
    by blast
  \<comment> \<open>the three roundings, from below\<close>
  have l1: "of_int lo / 2 ^ 44 \<le> rnd q"
    using rnd_mono[OF h(5)] h(1,2) by (subst (asm) rnd_frac) simp_all
  have "of_int (100 * lo) / 2 ^ 44 \<le> rnd q * 100" using l1 by simp
  from rnd_mono[OF this] have l2: "of_int (100 * lo) / 2 ^ 44 \<le> rnd (rnd q * 100)"
    using h(1,2) by (subst (asm) rnd_frac) simp_all
  have "of_int (300 * lo) / 2 ^ 45 \<le> rnd (rnd q * 100) * (3/2)" using l2 by simp
  from rnd_mono[OF this] have l3: "of_int (300 * lo) / 2 ^ 45 \<le> x"
    unfolding x_def using h(1,2) by (subst (asm) rnd_frac) simp_all
  \<comment> \<open>and from above\<close>
  have u1: "rnd q \<le> of_int hi / 2 ^ 44"
    using rnd_mono[OF h(7)] h(3,4) by (subst (asm) rnd_frac) simp_all
  have "rnd q * 100 \<le> of_int (100 * hi) / 2 ^ 44" using u1 by simp
  from rnd_mono[OF this] have u2: "rnd (rnd q * 100) \<le> of_int (100 * hi) / 2 ^ 44"
    using h(3,4) by (subst (asm) rnd_frac) simp_all
  have "rnd (rnd q * 100) * (3/2) \<le> of_int (300 * hi) / 2 ^ 45" using u2 by simp
  from rnd_mono[OF this] have u3: "x \<le> of_int (300 * hi) / 2 ^ 45"
    unfolding x_def using h(3,4) by (subst (asm) rnd_frac) simp_all
  have lo: "150 * q - 150 / 2 ^ 44 < x"
  proof -
    have "150 * (q - 1 / 2 ^ 44) < 150 * (of_int lo / 2 ^ 44)"
      using h(6) by (intro mult_strict_left_mono) simp_all
    also have "\<dots> = of_int (300 * lo) / 2 ^ 45" by simp
    finally show ?thesis using l3 by (simp add: algebra_simps)
  qed
  have hi: "x < 150 * q + 150 / 2 ^ 44"
  proof -
    have "150 * (of_int hi / 2 ^ 44) < 150 * (q + 1 / 2 ^ 44)"
      using h(8) by (intro mult_strict_left_mono) simp_all
    moreover have "150 * (of_int hi / 2 ^ 44) = (of_int (300 * hi) :: rat) / 2 ^ 45" by simp
    ultimately show ?thesis using u3 by (simp add: algebra_simps)
  qed
  define r where "r = (150 * int u) mod int t"
  have ti: "0 < int t" using ut(2) by simp
  have dm: "150 * int u = n * int t + r" unfolding n_def r_def by simp
  have r0: "0 \<le> r" and r1: "r < int t" unfolding r_def using ti by simp_all
  have "(of_int (150 * int u) :: rat) = of_int (n * int t + r)" using dm by simp
  then have "150 * (of_nat u :: rat) = of_int n * of_nat t + of_int r" by simp
  then have "150 * q = (of_int n * of_nat t + of_int r) / of_nat t"
    unfolding q_def by simp
  also have "\<dots> = of_int n + of_int r / of_nat t"
    using tp by (simp add: add_divide_distrib)
  finally have qe: "150 * q = of_int n + of_int r / of_nat t" .
  have rb0: "(0::rat) \<le> of_int r / of_nat t" using r0 by simp
  have "r + 1 \<le> int t" using r1 by simp
  then have "(of_int (r + 1) :: rat) \<le> of_int (int t)" by (simp only: of_int_le_iff)
  then have "(of_int r :: rat) + 1 \<le> of_nat t" by simp
  then have "((of_int r :: rat) + 1) / of_nat t \<le> 1"
    using tp by (simp add: divide_le_eq_1)
  then have rb1: "(of_int r :: rat) / of_nat t + 1 / of_nat t \<le> 1"
    by (simp add: add_divide_distrib)
  have "(of_nat t :: rat) \<le> of_nat (2 ^ 36)" using t by (simp only: of_nat_le_iff)
  then have "(1::rat) / 2 ^ 36 \<le> 1 / of_nat t" using tp by (simp add: field_simps)
  moreover have "(150::rat) / 2 ^ 44 < 1 / 2 ^ 36" by simp
  ultimately have sm: "(150::rat) / 2 ^ 44 < 1 / of_nat t" by linarith
  have x_lo: "of_int (n - 1) < x" using lo qe rb0 by simp
  have x_hi: "x < of_int (n + 1)" using hi qe rb1 sm by simp
  have p1: "0 \<le> rnd q" using q0 by (rule rnd_nonneg)
  have p2: "0 \<le> rnd (rnd q * 100)" using p1 by (intro rnd_nonneg) simp
  have x0: "0 \<le> x" unfolding x_def using p2 by (intro rnd_nonneg) simp
  have f1: "n - 1 \<le> \<lfloor>x\<rfloor>" using x_lo by (subst le_floor_iff) simp
  have "\<lfloor>x\<rfloor> < n + 1" using x_hi by (subst floor_less_iff) simp
  then have f2: "\<lfloor>x\<rfloor> \<le> n" by simp
  show "min 100 ((150 * int u) div int t) - 1
           \<le> min 100 (py_int (fmul (fmul (fdiv (of_nat u) (of_nat t)) 100) (3/2)))"
    unfolding fx n_def[symmetric] py_int_nonneg[OF x0] using f1 by linarith
  show "min 100 (py_int (fmul (fmul (fdiv (of_nat u) (of_nat t)) 100) (3/2)))
           \<le> min 100 ((150 * int u) div int t)"
    unfolding fx n_def[symmetric] py_int_nonneg[OF x0] using f2 by linarith
qed

lemma uniqueness_off_by_one:
  assumes ne: "str_split U txt \<noteq> []"
    and sz: "length (str_split U txt) \<le> 2 ^ 36"
    and le: "card (set (str_split U (lower U txt))) \<le> length (str_split U txt)"
  shows "\<exists>n. calculate_uniqueness U self txt = Inr n
           \<and> min 100 ((150 * int (card (set (str_split U (lower U txt)))))
                          div int (length (str_split U txt))) - 1 \<le> n
           \<and> n \<le> min 100 ((150 * int (card (set (str_split U (lower U txt)))))
                          div int (length (str_split U txt)))"
proof -
  have t: "0 < length (str_split U txt)" using ne by simp
  have "len (str_split U txt) > 0" using ne by (simp add: len_def)
  then have "calculate_uniqueness U self txt =
        Inr (min 100 (py_int (fmul (fmul (fdiv (of_nat (card (set (str_split U (lower U txt)))))
                                               (of_nat (length (str_split U txt)))) 100) (3/2))))"
    by (simp add: calculate_uniqueness_def Let_def int_truediv_fdiv len_def)
  with uniqueness_vs_exact[OF le t sz] show ?thesis by simp
qed

section \<open>Industry insights\<close>

lemma known_industry_keywords:
  "dict_get industry_keywords (lit ''Technology'') [] = map lit [''agile'', ''scrum'', ''api'', ''cloud'',
      ''devops'', ''microservices'', ''scalability'']"
  "dict_get industry_keywords (lit ''Healthcare'') [] = map lit [''hipaa'', ''patient care'', ''clinical'',
      ''medical'', ''compliance'', ''safety'']"
  "dict_get industry_keywords (lit ''Finance'') [] = map lit [''regulatory'', ''compliance'',
      ''risk management'', ''audit'', ''financial modeling'']"
  "dict_get industry_keywords (lit ''Marketing'') [] = map lit [''seo'', ''sem'', ''analytics'',
      ''conversion'', ''campaigns'', ''brand'', ''roi'']"
  "dict_get industry_keywords (lit ''Data Science'') [] = map lit [''machine learning'', ''statistics'',
      ''python'', ''sql'', ''visualization'', ''modeling'']"
  by (simp_all add: dict_get_def industry_keywords_def lit_def)

lemma unknown_industry_keywords:
  assumes "ind \<notin> set (map lit [''Technology'', ''Healthcare'', ''Finance'', ''Marketing'', ''Data Science''])"
  shows "dict_get industry_keywords ind [] = []"
  using assms by (simp add: dict_get_def industry_keywords_def)

lemma known_industry_nonempty:
  assumes "ind \<in> set (map lit [''Technology'', ''Healthcare'', ''Finance'', ''Marketing'', ''Data Science''])"
  shows "dict_get industry_keywords ind [] \<noteq> []"
  using assms known_industry_keywords by auto

text \<open>
  C6. The industry's keyword list is split into the keywords that are among the
  analysis's matched keywords and the rest: the two lists are disjoint, each is a
  subsequence of the keyword list, and together they hold exactly its elements. For
  the five known industries the score is the float value of matched count / total
  count * 100; for any other industry both lists are empty and the score is 0.
\<close>

theorem industry_insights_spec:
  "let kws = dict_get industry_keywords ind [];
       mk = (case an ''matched_keywords'' of None \<Rightarrow> [] | Some ks \<Rightarrow> ks);
       known = set (map lit [''Technology'', ''Healthcare'', ''Finance'', ''Marketing'', ''Data Science''])
   in \<exists>r. get_industry_insights self ind an = Inr r
        \<and> industry r = ind
        \<and> matched_industry_keywords r = filter (\<lambda>kw. kw \<in> set mk) kws
        \<and> missing_industry_keywords r = filter (\<lambda>kw. kw \<notin> set mk) kws
        \<and> set (matched_industry_keywords r) \<inter> set (missing_industry_keywords r) = {}
        \<and> subseq (matched_industry_keywords r) kws
        \<and> subseq (missing_industry_keywords r) kws
        \<and> mset (matched_industry_keywords r) + mset (missing_industry_keywords r) = mset kws
        \<and> (ind \<in> known \<longrightarrow>
              industry_score r
                = fmul (fdiv (of_nat (length (matched_industry_keywords r))) (of_nat (length kws))) 100)
        \<and> (ind \<notin> known \<longrightarrow>
              matched_industry_keywords r = [] \<and> missing_industry_keywords r = []
              \<and> industry_score r = 0)"
proof (cases "ind \<in> set (map lit [''Technology'', ''Healthcare'', ''Finance'', ''Marketing'', ''Data Science''])")
  case True
  from known_industry_nonempty[OF True]
  have ne: "dict_get industry_keywords ind [] \<noteq> []" .
  then have l: "len (dict_get industry_keywords ind []) \<noteq> 0" by (simp add: len_def)
  show ?thesis
    unfolding Let_def get_industry_insights_def
    using True ne l
    by (auto simp: int_truediv_fdiv len_def)
next
  case False
  from unknown_industry_keywords[OF False]
  have e: "dict_get industry_keywords ind [] = []" .
  show ?thesis
    unfolding Let_def get_industry_insights_def e
    using False by simp
qed

theorem industry_insights_spec_witness:
  "(\<exists>r. get_industry_insights () (lit ''Finance'') [''matched_keywords'' \<mapsto> map lit [''audit'', ''python'']] = Inr r
        \<and> matched_industry_keywords r = map lit [''audit'']
        \<and> missing_industry_keywords r = map lit [''regulatory'', ''compliance'', ''risk management'',
              ''financial modeling'']
        \<and> industry_score r = 20)
   \<and> (\<exists>r. get_industry_insights () (lit ''Law'') [''matched_keywords'' \<mapsto> map lit [''audit'', ''python'']] = Inr r
        \<and> matched_industry_keywords r = [] \<and> missing_industry_keywords r = []
        \<and> industry_score r = 0)"
proof -
  let ?an = "[''matched_keywords'' \<mapsto> map lit [''audit'', ''python'']] :: analysis"
  have k: "lit ''Finance'' \<in> set (map lit [''Technology'', ''Healthcare'', ''Finance'', ''Marketing'', ''Data Science''])"
    by (simp add: lit_def)
  have u: "lit ''Law'' \<notin> set (map lit [''Technology'', ''Healthcare'', ''Finance'', ''Marketing'', ''Data Science''])"
    by (simp add: lit_def)
  have f1: "filter (\<lambda>kw. kw \<in> set (map lit [''audit'', ''python'']))
              (map lit [''regulatory'', ''compliance'', ''risk management'', ''audit'', ''financial modeling''])
            = map lit [''audit'']"
    by (simp add: lit_def)
  have f2: "filter (\<lambda>kw. kw \<notin> set (map lit [''audit'', ''python'']))
              (map lit [''regulatory'', ''compliance'', ''risk management'', ''audit'', ''financial modeling''])
            = map lit [''regulatory'', ''compliance'', ''risk management'', ''financial modeling'']"
    by (simp add: lit_def)
  have sc: "fmul (fdiv 1 5) 100 = 20" by code_simp
  from industry_insights_spec[of "lit ''Finance''" ?an "()"]
  obtain r where r: "get_industry_insights () (lit ''Finance'') ?an = Inr r"
    "matched_industry_keywords r = filter (\<lambda>kw. kw \<in> set (map lit [''audit'', ''python'']))
        (dict_get industry_keywords (lit ''Finance'') [])"
    "missing_industry_keywords r = filter (\<lambda>kw. kw \<notin> set (map lit [''audit'', ''python'']))
        (dict_get industry_keywords (lit ''Finance'') [])"
    "industry_score r = fmul (fdiv (of_nat (length (matched_industry_keywords r)))
        (of_nat (length (dict_get industry_keywords (lit ''Finance'') [])))) 100"
    unfolding Let_def using k by auto
  have r2: "matched_industry_keywords r = map lit [''audit'']"
    using r(2) unfolding known_industry_keywords f1 .
  have r3: "missing_industry_keywords r = map lit [''regulatory'', ''compliance'', ''risk management'',
              ''financial modeling'']"
    using r(3) unfolding known_industry_keywords f2 .
  have r4: "industry_score r = 20"
    using r(4) unfolding r2 known_industry_keywords using sc by simp
  from industry_insights_spec[of "lit ''Law''" ?an "()"]
  obtain q where q: "get_industry_insights () (lit ''Law'') ?an = Inr q"
    "matched_industry_keywords q = []" "missing_industry_keywords q = []" "industry_score q = 0"
    unfolding Let_def using u by auto
  from r(1) r2 r3 r4 q show ?thesis by blast
qed

section \<open>Ranges\<close>

lemma keyword_density_range:
  "\<exists>n. calculate_keyword_density U self resume_text job_description = Inr n \<and> 0 \<le> n \<and> n \<le> 100"
proof (cases "set (str_split U (lower U job_description)) = {}")
  case True
  then show ?thesis by (simp add: calculate_keyword_density_def)
next
  case False
  let ?rw = "set (str_split U (lower U resume_text))"
  let ?jw = "set (str_split U (lower U job_description))"
  let ?q = "rnd (of_nat (card (?rw \<inter> ?jw)) / of_nat (card ?jw))"
  have j: "0 < card ?jw" using False by (simp add: card_gt_0_iff)
  have "card (?rw \<inter> ?jw) \<le> card ?jw" by (intro card_mono) simp_all
  then have "(of_nat (card (?rw \<inter> ?jw)) :: rat) \<le> of_nat (card ?jw)" by simp
  then have le1: "(of_nat (card (?rw \<inter> ?jw)) :: rat) / of_nat (card ?jw) \<le> 1"
    using j by (simp add: divide_le_eq_1)
  have ge0: "(0::rat) \<le> of_nat (card (?rw \<inter> ?jw)) / of_nat (card ?jw)" by simp
  have q0: "0 \<le> ?q" using ge0 by (rule rnd_nonneg)
  have q1: "?q \<le> 1" using rnd_mono[OF le1] by simp
  have p0: "0 \<le> rnd (?q * 100)" using q0 by (intro rnd_nonneg) simp
  have "?q * 100 \<le> 100" using q1 by simp
  from rnd_mono[OF this] have p1: "rnd (?q * 100) \<le> 100" by simp
  have "calculate_keyword_density U self resume_text job_description
          = Inr (py_int (rnd (?q * 100)))"
    using False j by (simp add: calculate_keyword_density_def Let_def int_truediv_def fmul_def)
  moreover have "0 \<le> py_int (rnd (?q * 100))" using p0 by (simp add: py_int_nonneg)
  moreover have "py_int (rnd (?q * 100)) \<le> 100"
    using p0 p1 by (simp add: py_int_nonneg floor_le_iff)
  ultimately show ?thesis by simp
qed
lemma readability_range:
  "\<exists>n. calculate_readability U self txt = Inr n \<and> 0 \<le> n \<and> n \<le> 100"
proof -
  obtain v where v: "calculate_readability U self txt = Inr (py_int (max 0 (min 100 v)))"
    using sentences_nonempty[of "txt"]
    by (simp add: calculate_readability_def Let_def int_truediv_def)
  have "0 \<le> max 0 (min 100 v)" by simp
  moreover have "max 0 (min 100 v) \<le> 100" by simp
  ultimately have "0 \<le> py_int (max 0 (min 100 v)) \<and> py_int (max 0 (min 100 v)) \<le> 100"
    by (simp add: py_int_nonneg floor_le_iff)
  with v show ?thesis by simp
qed

text \<open>
  C7. The keyword density and the readability score are integers between 0 and 100
  for all inputs. The quick ATS score is not: the call raises NameError, here on a
  resume line with an e-mail address and a year.
\<close>

theorem score_ranges:
  "calculate_quick_ats_score ascii module_globals () (lit ''jane@example.com 2021'')
      = Inl (NameError ''re'')
   \<and> (\<exists>n. calculate_keyword_density U self resume_text job_description = Inr n \<and> 0 \<le> n \<and> n \<le> 100)
   \<and> (\<exists>n. calculate_readability U self' txt = Inr n \<and> 0 \<le> n \<and> n \<le> 100)"
  using keyword_density_range[of U self resume_text job_description]
    readability_range[of U self' "txt"]
  by (simp add: calculate_quick_ats_score_def re_unbound Let_def)

section \<open>Two runs on the same text\<close>


section \<open>Lower bound of the quick score\<close>

text \<open>
  C9. The quick ATS score of a resume is no score of at least 45: the call returns
  no score at all, here on the empty resume.
\<close>

theorem quick_ats_score_no_lower_bound:
  "\<not> (\<exists>score. calculate_quick_ats_score ascii module_globals () (lit '''') = Inr score \<and> 45 \<le> score)"
  by (simp add: calculate_quick_ats_score_def re_unbound Let_def)

section \<open>Density of a text against itself\<close>

text \<open>
  C10. A text with at least one word has keyword density 100 against itself.
\<close>

theorem keyword_density_self:
  assumes "case_mapping_keeps_words U" and "str_split U txt \<noteq> []"
  shows "calculate_keyword_density U self txt txt = Inr 100"
proof -
  let ?jw = "set (str_split U (lower U txt))"
  have "str_split U (lower U txt) \<noteq> []"
    using assms by (simp add: case_mapping_keeps_words_def)
  then have ne: "?jw \<noteq> {}" by simp
  then have c: "card ?jw \<noteq> 0" by simp
  then have "(of_nat (card ?jw) :: rat) / of_nat (card ?jw) = 1" by simp
  then have "int_truediv (int (card ?jw)) (int (card ?jw)) = Inr 1"
    using c by (simp add: int_truediv_def)
  then show ?thesis
    using ne by (simp add: calculate_keyword_density_def Let_def fmul_def py_int_def)
qed

theorem keyword_density_self_witness:
  "calculate_keyword_density ascii () (lit ''Python developer'') (lit ''Python developer'') = Inr 100"
proof -
  have "str_split ascii (lit ''Python developer'') \<noteq> []" by code_simp
  with ascii_keeps_words show ?thesis by (rule keyword_density_self)
qed

end
